theory Spec2Isabelle
  imports Main "HOL-Library.Multiset" "HOL-Library.Word"
begin

unbundle bit_operations_syntax

section \<open>The executor of the measurement engine (executor.py)\<close>

text \<open>
  The theory embeds \<^verbatim>\<open>X86Intel.trace_test_case\<close>. Python integers are \<open>int\<close>, the
  bitwise operators of Python on integers are those of HOL on \<open>int\<close> (two's complement,
  unbounded). The kernel module is seen through the values the method reads from it;
  the calls the method makes on it are recorded in a list. Opening a pseudo file and
  running a shell command are taken to succeed at the level of the operating system.
\<close>

subsection \<open>Data\<close>

type_synonym HTrace = int
type_synonym PFCReading = int

text \<open>An input is the byte string that \<^verbatim>\<open>tobytes\<close> gives.\<close>

type_synonym Input = "8 word list"

text \<open>
  The exceptions that leave \<^verbatim>\<open>trace_test_case\<close>. \<open>NoOutput\<close> is the exception raised
  when the hardware trace was not produced. \<open>IndexError\<close>, \<open>KeyError\<close> and
  \<open>ValueError\<close> are the exceptions of Python's indexing, dictionary lookup and
  \<^verbatim>\<open>int()\<close> (a cell that is not the text of an integer; a missing cell of a short row,
  which \<^verbatim>\<open>int()\<close> refuses as well, is counted here too).
\<close>

datatype error = DeviceUnavailable | LoadRejected | NoOutput | IndexError | KeyError | ValueError

text \<open>
  The tunables read from \<^verbatim>\<open>CONF\<close>. The configuration module is not part of the sources
  at hand, hence its values are a parameter of every function that reads them.
\<close>

record config =
  num_measurements :: int
  max_outliers :: int
  ignore_first_cache_line :: bool
  measurement_cpu :: int

text \<open>
  A cell of the measurement file as \<^verbatim>\<open>int()\<close> sees it, a row as the dictionary that
  \<^verbatim>\<open>csv.DictReader\<close> yields, and the file as the reader presents it: the field names
  (\<open>None\<close> for a file without a header line) and the rows in order.
\<close>

datatype cell = IntText int | OtherText

type_synonym row = "string \<rightharpoonup> cell"

record measurement_file =
  fieldnames :: "string list option"
  rows :: "row list"

text \<open>
  What the method reads from the kernel module: whether \<^verbatim>\<open>/proc/x86-executor\<close> is
  there, the line read back from \<^verbatim>\<open>n_inputs\<close>, and the measurement file that the
  \<open>k\<close>-th measurement of the call leaves.
\<close>

record device =
  module_loaded :: bool
  n_inputs_readback :: string
  measurement :: "nat \<Rightarrow> measurement_file"

datatype device_call =
  IsFile
  | WriteNInputs nat
  | WriteInputs "8 word list"
  | ReadNInputs
  | Measure int

subsection \<open>\<^verbatim>\<open>collections.Counter\<close>\<close>

type_synonym counter = "int \<rightharpoonup> int"

definition counter_get :: "counter \<Rightarrow> int \<Rightarrow> int" where
  "counter_get c k = (case c k of None \<Rightarrow> 0 | Some n \<Rightarrow> n)"

definition counter_incr :: "counter \<Rightarrow> int \<Rightarrow> counter" where
  "counter_incr c k = c(k \<mapsto> counter_get c k + 1)"

subsection \<open>Removing outliers and merging (lines 129 to 161)\<close>

text \<open>
  One iteration of the loop over \<^verbatim>\<open>trace_list\<close>; the state is the counter and
  \<^verbatim>\<open>merged_traces[i]\<close>.
\<close>

fun merge_step :: "int \<Rightarrow> HTrace \<Rightarrow> counter \<times> HTrace \<Rightarrow> counter \<times> HTrace" where
  "merge_step mo trace (num_occurrences, merged) =
     (let num_occurrences' = counter_incr num_occurrences trace in
      if counter_get num_occurrences' trace \<le> mo then (num_occurrences', merged)
      else if counter_get num_occurrences' trace = mo + 1 then (num_occurrences', merged OR trace)
      else (num_occurrences', merged))"

definition merge_loop :: "int \<Rightarrow> HTrace list \<Rightarrow> counter \<times> HTrace" where
  "merge_loop mo trace_list = fold (merge_step mo) trace_list (Map.empty, 0)"

definition merge_trace_list :: "int \<Rightarrow> HTrace list \<Rightarrow> HTrace" where
  "merge_trace_list mo trace_list = snd (merge_loop mo trace_list)"

text \<open>The same for the readings of the first counter, with the maximum and the doubled threshold.\<close>

fun filter_step :: "int \<Rightarrow> PFCReading \<Rightarrow> counter \<times> PFCReading \<Rightarrow> counter \<times> PFCReading" where
  "filter_step mo reading (num_occurrences, filtered) =
     (let num_occurrences' = counter_incr num_occurrences reading in
      if counter_get num_occurrences' reading \<le> mo * 2 then (num_occurrences', filtered)
      else if counter_get num_occurrences' reading = mo * 2 + 1
        then (num_occurrences', max filtered reading)
      else (num_occurrences', filtered))"

definition filter_loop :: "int \<Rightarrow> PFCReading list \<Rightarrow> counter \<times> PFCReading" where
  "filter_loop mo readings = fold (filter_step mo) readings (Map.empty, 0)"

text \<open>
  The readings of one input are the three lists \<^verbatim>\<open>[[], [], []]\<close>, here a triple. Only the
  first list is read; the entry of one input of \<^verbatim>\<open>filtered_pfc_readings\<close> starts as
  \<^verbatim>\<open>[0, 0, 0]\<close> and only its first component is assigned.
\<close>

type_synonym reading_lists = "PFCReading list \<times> PFCReading list \<times> PFCReading list"

definition filter_reading_lists :: "int \<Rightarrow> reading_lists \<Rightarrow> PFCReading list" where
  "filter_reading_lists mo reading_lists =
     (case reading_lists of (r0, r1, r2) \<Rightarrow> [snd (filter_loop mo r0), 0, 0])"

subsection \<open>One measurement (lines 100 to 122)\<close>

text \<open>\<^verbatim>\<open>int(row[key])\<close>.\<close>

definition cell_int :: "row \<Rightarrow> string \<Rightarrow> error + int" where
  "cell_int r key =
     (case r key of
        None \<Rightarrow> Inl KeyError
      | Some OtherText \<Rightarrow> Inl ValueError
      | Some (IntText v) \<Rightarrow> Inr v)"

text \<open>The mask applied to a trace when \<^verbatim>\<open>CONF.ignore_first_cache_line\<close> is set.\<close>

definition mask_trace :: "config \<Rightarrow> HTrace \<Rightarrow> HTrace" where
  "mask_trace conf trace =
     (if ignore_first_cache_line conf then trace AND 9223372036854775807 else trace)"

text \<open>
  The histories of a call: \<^verbatim>\<open>traces\<close> and \<^verbatim>\<open>pfc_readings\<close>, one entry per input.
\<close>

type_synonym histories = "HTrace list list \<times> reading_lists list"

text \<open>
  The loop over \<^verbatim>\<open>enumerate(reader)\<close>, from row number \<open>i\<close> on. An index beyond the
  end of \<^verbatim>\<open>traces\<close> raises \<open>IndexError\<close>.
\<close>

fun read_rows :: "config \<Rightarrow> nat \<Rightarrow> row list \<Rightarrow> histories \<Rightarrow> error + histories" where
  "read_rows conf i [] h = Inr h"
| "read_rows conf i (r # rest) (traces, pfc_readings) =
     (case cell_int r ''CACHE_MAP'' of
        Inl e \<Rightarrow> Inl e
      | Inr trace \<Rightarrow>
          if \<not> i < length traces then Inl IndexError
          else if \<not> i < length pfc_readings then Inl IndexError
          else
            (case cell_int r ''pfc1'' of
               Inl e \<Rightarrow> Inl e
             | Inr c1 \<Rightarrow>
                 (case cell_int r ''pfc2'' of
                    Inl e \<Rightarrow> Inl e
                  | Inr c2 \<Rightarrow>
                      (case cell_int r ''pfc3'' of
                         Inl e \<Rightarrow> Inl e
                       | Inr c3 \<Rightarrow>
                           read_rows conf (Suc i) rest
                             (traces[i := traces ! i @ [mask_trace conf trace]],
                              pfc_readings[i :=
                                (case pfc_readings ! i of
                                   (r0, r1, r2) \<Rightarrow> (r0 @ [c1], r1 @ [c2], r2 @ [c3]))])))))"

text \<open>
  The test \<^verbatim>\<open>not reader.fieldnames or 'CACHE_MAP' not in reader.fieldnames\<close>, and fetching
  the results of the \<open>k\<close>-th measurement.
\<close>

definition trace_not_produced :: "measurement_file \<Rightarrow> bool" where
  "trace_not_produced f =
     (case fieldnames f of
        None \<Rightarrow> True
      | Some names \<Rightarrow> names = [] \<or> ''CACHE_MAP'' \<notin> set names)"

definition fetch_results :: "config \<Rightarrow> device \<Rightarrow> nat \<Rightarrow> histories \<Rightarrow> error + histories" where
  "fetch_results conf dev k h =
     (if trace_not_produced (measurement dev k) then Inl NoOutput
      else read_rows conf 0 (rows (measurement dev k)) h)"

text \<open>
  The loop \<^verbatim>\<open>for _ in range(num_measurements)\<close>: \<open>n\<close> measurements are left, the next one
  is the \<open>k\<close>-th. The second component lists the calls made on the kernel module.
\<close>

fun measure_loop ::
  "config \<Rightarrow> device \<Rightarrow> nat \<Rightarrow> nat \<Rightarrow> histories \<Rightarrow> (error + histories) \<times> device_call list" where
  "measure_loop conf dev k 0 h = (Inr h, [])"
| "measure_loop conf dev k (Suc n) h =
     (case fetch_results conf dev k h of
        Inl e \<Rightarrow> (Inl e, [Measure (measurement_cpu conf)])
      | Inr h' \<Rightarrow>
          (case measure_loop conf dev (Suc k) n h' of
             (res, calls) \<Rightarrow> (res, Measure (measurement_cpu conf) # calls)))"

subsection \<open>\<^verbatim>\<open>trace_test_case\<close>\<close>

text \<open>\<^verbatim>\<open>xs[0]\<close> and a list comprehension whose element may raise.\<close>

definition first :: "'a list \<Rightarrow> error + 'a" where
  "first xs = (case xs of [] \<Rightarrow> Inl IndexError | x # _ \<Rightarrow> Inr x)"

fun comprehension :: "('a \<Rightarrow> error + 'b) \<Rightarrow> 'a list \<Rightarrow> error + 'b list" where
  "comprehension f [] = Inr []"
| "comprehension f (x # xs) =
     (case f x of
        Inl e \<Rightarrow> Inl e
      | Inr y \<Rightarrow> (case comprehension f xs of Inl e \<Rightarrow> Inl e | Inr ys \<Rightarrow> Inr (y # ys)))"

text \<open>\<^verbatim>\<open>[r[0][0], r[1][0], r[2][0]]\<close>.\<close>

definition first_readings :: "reading_lists \<Rightarrow> error + PFCReading list" where
  "first_readings r =
     (case r of (r0, r1, r2) \<Rightarrow>
        (case first r0 of
           Inl e \<Rightarrow> Inl e
         | Inr a \<Rightarrow>
             (case first r1 of
                Inl e \<Rightarrow> Inl e
              | Inr b \<Rightarrow> (case first r2 of Inl e \<Rightarrow> Inl e | Inr c \<Rightarrow> Inr [a, b, c]))))"

text \<open>
  The result of a call, the calls made on the kernel module, and the arguments of the
  calls of \<^verbatim>\<open>coverage.executor_hook\<close>, each in order.
\<close>

type_synonym outcome = "(error + HTrace list) \<times> device_call list \<times> PFCReading list list list"

text \<open>Lines 124 to 127: the branch \<^verbatim>\<open>num_measurements == 1\<close>.\<close>

definition single_measurement ::
  "bool \<Rightarrow> histories \<Rightarrow> (error + HTrace list) \<times> PFCReading list list list" where
  "single_measurement coverage h =
     (case h of (traces, pfc_readings) \<Rightarrow>
        (if coverage then
           (case comprehension first_readings pfc_readings of
              Inl e \<Rightarrow> (Inl e, [])
            | Inr arg \<Rightarrow>
                (case comprehension first traces of
                   Inl e \<Rightarrow> (Inl e, [arg])
                 | Inr ts \<Rightarrow> (Inr ts, [arg])))
         else
           (case comprehension first traces of
              Inl e \<Rightarrow> (Inl e, [])
            | Inr ts \<Rightarrow> (Inr ts, []))))"

text \<open>Lines 129 to 161: the branch of several measurements.\<close>

definition merged_measurements ::
  "config \<Rightarrow> bool \<Rightarrow> histories \<Rightarrow> (error + HTrace list) \<times> PFCReading list list list" where
  "merged_measurements conf coverage h =
     (case h of (traces, pfc_readings) \<Rightarrow>
        (Inr (map (merge_trace_list (max_outliers conf)) traces),
         if coverage then [map (filter_reading_lists (max_outliers conf)) pfc_readings] else []))"

text \<open>
  Modelled from the spec: \<^verbatim>\<open>LOGGER.error\<close> (the service module is not part of the sources
  at hand). The spec's error handling design makes a failed readiness probe
  (\<open>DeviceUnavailable\<close>) and a rejected load (\<open>LoadRejected\<close>) fatal for the batch, so a
  call of \<^verbatim>\<open>LOGGER.error\<close> ends the call of \<^verbatim>\<open>trace_test_case\<close> with that error, after
  the calls made on the kernel module so far and without a call of the hook.
\<close>

definition logger_error :: "error \<Rightarrow> device_call list \<Rightarrow> outcome" where
  "logger_error e calls = (Inl e, calls, [])"

text \<open>The probe and the protocol of loading the inputs (lines 78 and 90 to 95).\<close>

definition load_calls :: "Input list \<Rightarrow> device_call list" where
  "load_calls inputs =
     [IsFile, WriteNInputs (length inputs), WriteInputs (concat inputs), ReadNInputs]"

text \<open>Lines 81 and 82: a count of \<open>0\<close> stands for the configured one.\<close>

definition effective_measurements :: "config \<Rightarrow> int \<Rightarrow> int" where
  "effective_measurements conf n = (if n = 0 then num_measurements conf else n)"

text \<open>Lines 98 and 99: the empty histories, one entry per input.\<close>

definition initial_histories :: "Input list \<Rightarrow> histories" where
  "initial_histories inputs = (map (\<lambda>_. []) inputs, map (\<lambda>_. ([], [], [])) inputs)"

definition trace_test_case ::
  "config \<Rightarrow> device \<Rightarrow> bool \<Rightarrow> Input list \<Rightarrow> int \<Rightarrow> outcome" where
  "trace_test_case conf dev coverage inputs n =
     (if inputs = [] then (Inr [], [], [])
      else if \<not> module_loaded dev then logger_error DeviceUnavailable [IsFile]
      else
        (let num = effective_measurements conf n in
         if n_inputs_readback dev = ''0'' @ [CHR 0x0A]
           then logger_error LoadRejected (load_calls inputs)
         else
           (case measure_loop conf dev 0 (nat num) (initial_histories inputs) of
              (Inl e, calls) \<Rightarrow> (Inl e, load_calls inputs @ calls, [])
            | (Inr h, calls) \<Rightarrow>
                (case (if num = 1 then single_measurement coverage h
                       else merged_measurements conf coverage h) of
                   (res, hooked) \<Rightarrow> (res, load_calls inputs @ calls, hooked)))))"

subsection \<open>Notions used to state the properties\<close>

text \<open>The bitwise OR of a list of values.\<close>

definition or_list :: "int list \<Rightarrow> int" where
  "or_list vs = fold (OR) vs 0"

text \<open>
  The value of \<^verbatim>\<open>num_occurrences[trace]\<close> that iteration \<open>j\<close> of the loop over
  \<^verbatim>\<open>trace_list\<close> tests, that is, after its increment.
\<close>

definition occurrences_at :: "int \<Rightarrow> HTrace list \<Rightarrow> nat \<Rightarrow> int" where
  "occurrences_at mo trace_list j =
     counter_get (fst (merge_loop mo (take (Suc j) trace_list))) (trace_list ! j)"

text \<open>The maximum of a list of readings and of the initial value \<open>0\<close>.\<close>

definition max_list :: "int list \<Rightarrow> int" where
  "max_list vs = fold max vs 0"

text \<open>
  The readings of one row: the trace and the three counters. A row holds a reading when
  \<^verbatim>\<open>int()\<close> of its four cells gives these values; storing a reading for input \<open>i\<close> appends
  it to the histories of that input, as one pass through the body of the loop over the
  rows does.
\<close>

type_synonym reading = "HTrace \<times> PFCReading \<times> PFCReading \<times> PFCReading"

definition holds_reading :: "row \<Rightarrow> reading \<Rightarrow> bool" where
  "holds_reading r q =
     (case q of (t, a, b, c) \<Rightarrow>
        cell_int r ''CACHE_MAP'' = Inr t \<and> cell_int r ''pfc1'' = Inr a \<and>
        cell_int r ''pfc2'' = Inr b \<and> cell_int r ''pfc3'' = Inr c)"

definition store_reading :: "config \<Rightarrow> nat \<Rightarrow> reading \<Rightarrow> histories \<Rightarrow> histories" where
  "store_reading conf i q h =
     (case q of (t, a, b, c) \<Rightarrow>
        (case h of (traces, pfc_readings) \<Rightarrow>
           (traces[i := traces ! i @ [mask_trace conf t]],
            pfc_readings[i :=
              (case pfc_readings ! i of (r0, r1, r2) \<Rightarrow> (r0 @ [a], r1 @ [b], r2 @ [c]))])))"

text \<open>Every list of readings of one input has at most \<open>m\<close> entries.\<close>

definition readings_within :: "nat \<Rightarrow> reading_lists \<Rightarrow> bool" where
  "readings_within m r =
     (case r of (r0, r1, r2) \<Rightarrow> length r0 \<le> m \<and> length r1 \<le> m \<and> length r2 \<le> m)"

text \<open>A property that every stored trace value of every input has.\<close>

definition stored_all :: "(HTrace \<Rightarrow> bool) \<Rightarrow> histories \<Rightarrow> bool" where
  "stored_all P h = (\<forall>x\<in>set (fst h). \<forall>v\<in>set x. P v)"

text \<open>Every history of every input has at most \<open>m\<close> entries.\<close>

definition bounded_histories :: "nat \<Rightarrow> histories \<Rightarrow> bool" where
  "bounded_histories m h =
     ((\<forall>x\<in>set (fst h). length x \<le> m) \<and> (\<forall>r\<in>set (snd h). readings_within m r))"

subsection \<open>A concrete configuration and concrete devices\<close>

text \<open>
  The row that holds a given reading and nothing else; a configuration with two
  measurements, a threshold of one and the mask enabled; a device that returns one row
  in every measurement; and the same device after two inputs were announced.
\<close>

definition reading_row :: "reading \<Rightarrow> row" where
  "reading_row q =
     (case q of (t, a, b, c) \<Rightarrow>
        [''CACHE_MAP'' \<mapsto> IntText t, ''pfc1'' \<mapsto> IntText a,
         ''pfc2'' \<mapsto> IntText b, ''pfc3'' \<mapsto> IntText c])"

definition demo_conf :: config where
  "demo_conf =
     \<lparr>num_measurements = 2, max_outliers = 1, ignore_first_cache_line = True,
      measurement_cpu = 0\<rparr>"

definition demo_device :: device where
  "demo_device =
     \<lparr>module_loaded = True, n_inputs_readback = ''1'' @ [CHR 0x0A],
      measurement = (\<lambda>k.
        \<lparr>fieldnames = Some [''CACHE_MAP'', ''pfc1'', ''pfc2'', ''pfc3''],
         rows = [reading_row (9223372036854775809, 3, 4, 5)]\<rparr>)\<rparr>"

definition short_device :: device where
  "short_device = demo_device\<lparr>n_inputs_readback := ''2'' @ [CHR 0x0A]\<rparr>"

text \<open>A device whose measurement files have no header line from the second one on.\<close>

definition silent_device :: device where
  "silent_device =
     demo_device\<lparr>measurement := (\<lambda>k.
       if k = 0 then measurement demo_device 0 else \<lparr>fieldnames = None, rows = []\<rparr>)\<rparr>"

text \<open>
  A device whose first two measurements read the trace \<open>1\<close> and the first counter \<open>7\<close>
  and whose later ones read \<open>2\<close> and \<open>5\<close>; the device that reads the same values in
  another order; a device that returns two rows in every measurement; and the
  configuration with the threshold \<open>-1\<close>.
\<close>

definition varied_device :: device where
  "varied_device =
     \<lparr>module_loaded = True, n_inputs_readback = ''1'' @ [CHR 0x0A],
      measurement = (\<lambda>k.
        \<lparr>fieldnames = Some [''CACHE_MAP'', ''pfc1'', ''pfc2'', ''pfc3''],
         rows = [reading_row (if k < 2 then (1, 7, 4, 5) else (2, 5, 4, 5))]\<rparr>)\<rparr>"

definition permuted_device :: device where
  "permuted_device =
     \<lparr>module_loaded = True, n_inputs_readback = ''1'' @ [CHR 0x0A],
      measurement = (\<lambda>k.
        \<lparr>fieldnames = Some [''CACHE_MAP'', ''pfc1'', ''pfc2'', ''pfc3''],
         rows = [reading_row (if odd k then (1, 7, 4, 5) else (2, 5, 4, 5))]\<rparr>)\<rparr>"


definition negative_conf :: config where
  "negative_conf = demo_conf\<lparr>max_outliers := - 1\<rparr>"

section \<open>Properties\<close>

subsection \<open>The counter\<close>

lemma counter_get_incr:
  "counter_get (counter_incr c k) k' = (if k' = k then counter_get c k + 1 else counter_get c k')"
  by (simp add: counter_get_def counter_incr_def)

lemma fst_merge_step: "fst (merge_step mo x s) = counter_incr (fst s) x"
  by (cases s) (simp add: Let_def)

lemma snd_merge_step:
  "snd (merge_step mo x s) =
     (if counter_get (fst s) x + 1 = mo + 1 then snd s OR x else snd s)"
  by (cases s) (simp add: Let_def counter_get_incr)

lemma merge_loop_snoc: "merge_loop mo (xs @ [x]) = merge_step mo x (merge_loop mo xs)"
  by (simp add: merge_loop_def)

lemma merge_loop_counter:
  "counter_get (fst (merge_loop mo xs)) v = int (count_list xs v)"
proof (induction xs arbitrary: v rule: rev_induct)
  case Nil
  show ?case by (simp add: merge_loop_def counter_get_def)
next
  case (snoc x xs)
  then show ?case
    by (simp add: merge_loop_snoc fst_merge_step counter_get_incr)
qed

lemma merge_loop_bits:
  "bit (snd (merge_loop mo xs)) n \<longleftrightarrow>
     0 \<le> mo \<and> (\<exists>v. mo < int (count_list xs v) \<and> bit v n)"
proof (induction xs rule: rev_induct)
  case Nil
  show ?case by (simp add: merge_loop_def)
next
  case (snoc x xs)
  show ?case
  proof (cases "int (count_list xs x) = mo")
    case True
    then have m: "0 \<le> mo" by simp
    have "bit (snd (merge_loop mo (xs @ [x]))) n \<longleftrightarrow> bit (snd (merge_loop mo xs)) n \<or> bit x n"
      using True by (simp add: merge_loop_snoc snd_merge_step merge_loop_counter bit_or_iff)
    also have "\<dots> \<longleftrightarrow> (\<exists>v. mo < int (count_list xs v) \<and> bit v n) \<or> bit x n"
      using snoc m by simp
    also have "\<dots> \<longleftrightarrow> (\<exists>v. mo < int (count_list (xs @ [x]) v) \<and> bit v n)"
      using True by auto
    finally show ?thesis using m by simp
  next
    case False
    have "bit (snd (merge_loop mo (xs @ [x]))) n \<longleftrightarrow> bit (snd (merge_loop mo xs)) n"
      using False by (simp add: merge_loop_snoc snd_merge_step merge_loop_counter)
    also have "\<dots> \<longleftrightarrow> 0 \<le> mo \<and> (\<exists>v. mo < int (count_list xs v) \<and> bit v n)"
      using snoc by simp
    also have "\<dots> \<longleftrightarrow> 0 \<le> mo \<and> (\<exists>v. mo < int (count_list (xs @ [x]) v) \<and> bit v n)"
    proof -
      have "mo < int (count_list (xs @ [x]) v) \<longleftrightarrow> mo < int (count_list xs v)" for v
        using False by auto
      then show ?thesis by simp
    qed
    finally show ?thesis .
  qed
qed

subsection \<open>Merging the traces of one input\<close>

lemma bit_fold_or:
  "bit (fold (OR) vs (a::int)) n \<longleftrightarrow> bit a n \<or> (\<exists>v\<in>set vs. bit v n)"
  by (induction vs arbitrary: a) (auto simp: bit_or_iff)

lemma bit_or_list: "bit (or_list vs) n \<longleftrightarrow> (\<exists>v\<in>set vs. bit v n)"
  by (simp add: or_list_def bit_fold_or)

lemma count_list_pos_mem: "0 < count_list xs v \<Longrightarrow> v \<in> set xs"
  by (metis count_list_0_iff neq0_conv)

lemma merge_trace_list_bits:
  "bit (merge_trace_list mo xs) n \<longleftrightarrow>
     0 \<le> mo \<and> (\<exists>v\<in>set xs. mo < int (count_list xs v) \<and> bit v n)"
proof -
  have "0 \<le> mo \<Longrightarrow> mo < int (count_list xs v) \<Longrightarrow> v \<in> set xs" for v
    by (rule count_list_pos_mem) simp
  then show ?thesis
    unfolding merge_trace_list_def merge_loop_bits by blast
qed

lemma merge_trace_list_or_list:
  assumes "0 \<le> mo"
  shows "merge_trace_list mo xs = or_list [v \<leftarrow> remdups xs. mo < int (count_list xs v)]"
  by (rule bit_eqI) (use assms in \<open>auto simp: merge_trace_list_bits bit_or_list\<close>)

lemma occurrences_at_count:
  "j < length xs \<Longrightarrow> occurrences_at mo xs j = int (count_list (take (Suc j) xs) (xs ! j))"
  by (simp add: occurrences_at_def merge_loop_counter)

lemma merge_loop_take_Suc:
  assumes "j < length xs"
  shows "snd (merge_loop mo (take (Suc j) xs)) =
           (if occurrences_at mo xs j = mo + 1 then snd (merge_loop mo (take j xs)) OR xs ! j
            else snd (merge_loop mo (take j xs)))"
proof -
  have t: "take (Suc j) xs = take j xs @ [xs ! j]"
    using assms by (rule take_Suc_conv_app_nth)
  have "occurrences_at mo xs j = counter_get (fst (merge_loop mo (take j xs))) (xs ! j) + 1"
    by (simp add: occurrences_at_def t merge_loop_snoc fst_merge_step counter_get_incr)
  then show ?thesis
    by (simp add: t merge_loop_snoc snd_merge_step)
qed

lemma count_positions:
  "length [j \<leftarrow> [0..<length xs]. xs ! j = v \<and> int (count_list (take (Suc j) xs) v) = m] =
     (if 1 \<le> m \<and> m \<le> int (count_list xs v) then 1 else 0)"
proof (induction xs rule: rev_induct)
  case Nil
  show ?case by simp
next
  case (snoc x xs)
  define P where "P = (\<lambda>ys j. ys ! j = v \<and> int (count_list (take (Suc j) ys) v) = m)"
  have same: "filter (P (xs @ [x])) [0..<length xs] = filter (P xs) [0..<length xs]"
    by (rule filter_cong) (auto simp: P_def nth_append)
  have final: "P (xs @ [x]) (length xs) \<longleftrightarrow> x = v \<and> int (count_list xs v) + 1 = m"
    by (auto simp: P_def)
  have ih: "length (filter (P xs) [0..<length xs]) =
              (if 1 \<le> m \<and> m \<le> int (count_list xs v) then 1 else 0)"
    using snoc by (simp add: P_def)
  have "length (filter (P (xs @ [x])) [0..<length (xs @ [x])]) =
          length (filter (P xs) [0..<length xs]) + (if x = v \<and> int (count_list xs v) + 1 = m then 1 else 0)"
    by (simp add: same final)
  also have "\<dots> = (if 1 \<le> m \<and> m \<le> int (count_list (xs @ [x]) v) then 1 else 0)"
    unfolding ih by auto
  finally show ?case by (simp only: P_def)
qed

lemma merge_positions:
  "length [j \<leftarrow> [0..<length xs]. xs ! j = v \<and> occurrences_at mo xs j = m] =
     (if 1 \<le> m \<and> m \<le> int (count_list xs v) then 1 else 0)"
proof -
  have "[j \<leftarrow> [0..<length xs]. xs ! j = v \<and> occurrences_at mo xs j = m] =
        [j \<leftarrow> [0..<length xs]. xs ! j = v \<and> int (count_list (take (Suc j) xs) v) = m]"
    by (rule filter_cong) (auto simp: occurrences_at_count)
  then show ?thesis by (simp only: count_positions)
qed

lemma merge_repeat:
  assumes "mo < int (count_list xs v)"
  shows "merge_trace_list mo (xs @ [v]) = merge_trace_list mo xs"
  using assms
  by (simp add: merge_trace_list_def merge_loop_snoc snd_merge_step merge_loop_counter)



subsection \<open>Filtering the readings of the first counter\<close>

lemma fst_filter_step: "fst (filter_step mo x s) = counter_incr (fst s) x"
  by (cases s) (simp add: Let_def)

lemma snd_filter_step:
  "snd (filter_step mo x s) =
     (if counter_get (fst s) x + 1 = mo * 2 + 1 then max (snd s) x else snd s)"
  by (cases s) (simp add: Let_def counter_get_incr)

lemma filter_loop_snoc: "filter_loop mo (xs @ [x]) = filter_step mo x (filter_loop mo xs)"
  by (simp add: filter_loop_def)

lemma filter_loop_counter:
  "counter_get (fst (filter_loop mo xs)) v = int (count_list xs v)"
proof (induction xs arbitrary: v rule: rev_induct)
  case Nil
  show ?case by (simp add: filter_loop_def counter_get_def)
next
  case (snoc x xs)
  then show ?case
    by (simp add: filter_loop_snoc fst_filter_step counter_get_incr)
qed

lemma filter_loop_le:
  "z \<le> snd (filter_loop mo xs) \<longleftrightarrow>
     z \<le> 0 \<or> (0 \<le> mo \<and> (\<exists>v. mo * 2 < int (count_list xs v) \<and> z \<le> v))"
proof (induction xs rule: rev_induct)
  case Nil
  show ?case by (auto simp: filter_loop_def)
next
  case (snoc x xs)
  show ?case
  proof (cases "int (count_list xs x) = mo * 2")
    case True
    then have m: "0 \<le> mo" by simp
    have "z \<le> snd (filter_loop mo (xs @ [x])) \<longleftrightarrow> z \<le> snd (filter_loop mo xs) \<or> z \<le> x"
      using True by (simp add: filter_loop_snoc snd_filter_step filter_loop_counter le_max_iff_disj)
    also have "\<dots> \<longleftrightarrow> z \<le> 0 \<or> (\<exists>v. mo * 2 < int (count_list xs v) \<and> z \<le> v) \<or> z \<le> x"
      using snoc m by auto
    also have "\<dots> \<longleftrightarrow> z \<le> 0 \<or> (\<exists>v. mo * 2 < int (count_list (xs @ [x]) v) \<and> z \<le> v)"
      using True by auto
    finally show ?thesis using m by simp
  next
    case False
    have "z \<le> snd (filter_loop mo (xs @ [x])) \<longleftrightarrow> z \<le> snd (filter_loop mo xs)"
      using False by (simp add: filter_loop_snoc snd_filter_step filter_loop_counter)
    also have "\<dots> \<longleftrightarrow> z \<le> 0 \<or> (0 \<le> mo \<and> (\<exists>v. mo * 2 < int (count_list xs v) \<and> z \<le> v))"
      using snoc by simp
    also have "\<dots> \<longleftrightarrow>
        z \<le> 0 \<or> (0 \<le> mo \<and> (\<exists>v. mo * 2 < int (count_list (xs @ [x]) v) \<and> z \<le> v))"
    proof -
      have "mo * 2 < int (count_list (xs @ [x]) v) \<longleftrightarrow> mo * 2 < int (count_list xs v)" for v
        using False by auto
      then show ?thesis by simp
    qed
    finally show ?thesis .
  qed
qed

lemma le_fold_max:
  "z \<le> fold max vs (a::int) \<longleftrightarrow> z \<le> a \<or> (\<exists>v\<in>set vs. z \<le> v)"
  by (induction vs arbitrary: a) (auto simp: le_max_iff_disj)

lemma le_max_list: "z \<le> max_list vs \<longleftrightarrow> z \<le> 0 \<or> (\<exists>v\<in>set vs. z \<le> v)"
  by (simp add: max_list_def le_fold_max)

lemma filter_loop_max_list:
  assumes "0 \<le> mo"
  shows "snd (filter_loop mo xs) = max_list [v \<leftarrow> remdups xs. mo * 2 < int (count_list xs v)]"
proof -
  have mem: "mo * 2 < int (count_list xs v) \<Longrightarrow> v \<in> set xs" for v
    by (rule count_list_pos_mem) (use assms in simp)
  have "z \<le> snd (filter_loop mo xs) \<longleftrightarrow>
          z \<le> max_list [v \<leftarrow> remdups xs. mo * 2 < int (count_list xs v)]" for z
    unfolding filter_loop_le le_max_list using assms mem by auto
  then show ?thesis
    by (meson order_antisym order_refl)
qed

lemma filter_loop_take_Suc:
  assumes "j < length xs"
  shows "snd (filter_loop mo (take (Suc j) xs)) =
           (if counter_get (fst (filter_loop mo (take (Suc j) xs))) (xs ! j) = mo * 2 + 1
            then max (snd (filter_loop mo (take j xs))) (xs ! j)
            else snd (filter_loop mo (take j xs)))"
proof -
  have t: "take (Suc j) xs = take j xs @ [xs ! j]"
    using assms by (rule take_Suc_conv_app_nth)
  show ?thesis
    by (simp add: t filter_loop_snoc snd_filter_step fst_filter_step counter_get_incr)
qed

subsection \<open>Reading the rows of one measurement\<close>

lemma read_rows_Cons_ok:
  assumes "holds_reading r q" "i < length (fst h)" "i < length (snd h)"
  shows "read_rows conf i (r # rest) h = read_rows conf (Suc i) rest (store_reading conf i q h)"
  using assms by (cases h; cases q) (simp add: holds_reading_def store_reading_def)

lemma read_rows_Cons_Inr:
  assumes "read_rows conf i (r # rest) h = Inr h'"
  shows "\<exists>q. holds_reading r q \<and> i < length (fst h) \<and> i < length (snd h) \<and>
             read_rows conf (Suc i) rest (store_reading conf i q h) = Inr h'"
proof (cases h)
  case (Pair tr pf)
  from assms obtain t where t: "cell_int r ''CACHE_MAP'' = Inr t"
    unfolding Pair by (cases "cell_int r ''CACHE_MAP''") simp_all
  from assms t have i: "i < length tr" "i < length pf"
    unfolding Pair by (simp_all split: if_splits)
  from assms t i obtain a where a: "cell_int r ''pfc1'' = Inr a"
    unfolding Pair by (cases "cell_int r ''pfc1''") simp_all
  from assms t i a obtain b where b: "cell_int r ''pfc2'' = Inr b"
    unfolding Pair by (cases "cell_int r ''pfc2''") simp_all
  from assms t i a b obtain c where c: "cell_int r ''pfc3'' = Inr c"
    unfolding Pair by (cases "cell_int r ''pfc3''") simp_all
  have q: "holds_reading r (t, a, b, c)"
    by (simp add: holds_reading_def t a b c)
  have "read_rows conf (Suc i) rest (store_reading conf i (t, a, b, c) h) = Inr h'"
    using assms read_rows_Cons_ok [OF q, of i h conf rest] i by (simp add: Pair)
  with q i show ?thesis unfolding Pair by auto
qed

lemma length_store_reading:
  "length (fst (store_reading conf i q h)) = length (fst h)"
  "length (snd (store_reading conf i q h)) = length (snd h)"
  by (cases h; cases q; simp add: store_reading_def)+

lemma fst_store_reading_nth:
  "j < length (fst h) \<Longrightarrow>
   fst (store_reading conf i q h) ! j =
     (if j = i then fst h ! j @ [mask_trace conf (fst q)] else fst h ! j)"
  by (cases h; cases q) (simp add: store_reading_def nth_list_update)

lemma snd_store_reading_nth:
  "j < length (snd h) \<Longrightarrow>
   snd (store_reading conf i q h) ! j =
     (if j = i
      then (case snd h ! j of (r0, r1, r2) \<Rightarrow>
              (case q of (t, a, b, c) \<Rightarrow> (r0 @ [a], r1 @ [b], r2 @ [c])))
      else snd h ! j)"
  by (cases h; cases q) (simp add: store_reading_def nth_list_update)

lemma read_rows_length:
  "read_rows conf i rs h = Inr h' \<Longrightarrow>
   length (fst h') = length (fst h) \<and> length (snd h') = length (snd h)"
proof (induction rs arbitrary: i h)
  case Nil
  then show ?case by (cases h) simp
next
  case (Cons r rest)
  from read_rows_Cons_Inr [OF Cons.prems] obtain q where
    "read_rows conf (Suc i) rest (store_reading conf i q h) = Inr h'" by blast
  from Cons.IH [OF this] show ?case by (simp add: length_store_reading)
qed

lemma read_rows_ok:
  assumes "list_all2 holds_reading rs qs" "i + length rs \<le> length (fst h)"
    "length (snd h) = length (fst h)"
  shows "\<exists>h'. read_rows conf i rs h = Inr h' \<and>
           length (fst h') = length (fst h) \<and> length (snd h') = length (snd h) \<and>
           (\<forall>j<length (fst h). fst h' ! j =
              (if i \<le> j \<and> j < i + length rs
               then fst h ! j @ [mask_trace conf (fst (qs ! (j - i)))] else fst h ! j)) \<and>
           (\<forall>j<length (snd h). snd h' ! j =
              (if i \<le> j \<and> j < i + length rs
               then (case snd h ! j of (r0, r1, r2) \<Rightarrow>
                       (case qs ! (j - i) of (t, a, b, c) \<Rightarrow> (r0 @ [a], r1 @ [b], r2 @ [c])))
               else snd h ! j))"
  using assms
proof (induction rs qs arbitrary: i h rule: list_all2_induct)
  case Nil
  then show ?case by (cases h) auto
next
  case (Cons r rs q qs)
  let ?h1 = "store_reading conf i q h"
  have i: "i < length (fst h)" "i < length (snd h)" using Cons.prems by simp_all
  have step: "read_rows conf i (r # rs) h = read_rows conf (Suc i) rs ?h1"
    using Cons.hyps(1) i by (rule read_rows_Cons_ok)
  have "Suc i + length rs \<le> length (fst ?h1)" "length (snd ?h1) = length (fst ?h1)"
    using Cons.prems by (simp_all add: length_store_reading)
  from Cons.IH [OF this] obtain h' where h':
    "read_rows conf (Suc i) rs ?h1 = Inr h'"
    "length (fst h') = length (fst ?h1)" "length (snd h') = length (snd ?h1)"
    "\<forall>j<length (fst ?h1). fst h' ! j =
        (if Suc i \<le> j \<and> j < Suc i + length rs
         then fst ?h1 ! j @ [mask_trace conf (fst (qs ! (j - Suc i)))] else fst ?h1 ! j)"
    "\<forall>j<length (snd ?h1). snd h' ! j =
        (if Suc i \<le> j \<and> j < Suc i + length rs
         then (case snd ?h1 ! j of (r0, r1, r2) \<Rightarrow>
                 (case qs ! (j - Suc i) of (t, a, b, c) \<Rightarrow> (r0 @ [a], r1 @ [b], r2 @ [c])))
         else snd ?h1 ! j)"
    by blast
  have a: "fst h' ! j =
      (if i \<le> j \<and> j < i + length (r # rs)
       then fst h ! j @ [mask_trace conf (fst ((q # qs) ! (j - i)))] else fst h ! j)"
    if "j < length (fst h)" for j
  proof -
    have "j < length (fst ?h1)" using that by (simp add: length_store_reading)
    with h'(4) have "fst h' ! j =
        (if Suc i \<le> j \<and> j < Suc i + length rs
         then fst ?h1 ! j @ [mask_trace conf (fst (qs ! (j - Suc i)))] else fst ?h1 ! j)"
      by blast
    then show ?thesis
      using that by (auto simp: fst_store_reading_nth nth_Cons' Suc_diff_Suc)
  qed
  have b: "snd h' ! j =
      (if i \<le> j \<and> j < i + length (r # rs)
       then (case snd h ! j of (r0, r1, r2) \<Rightarrow>
               (case (q # qs) ! (j - i) of (t, a, b, c) \<Rightarrow> (r0 @ [a], r1 @ [b], r2 @ [c])))
       else snd h ! j)"
    if "j < length (snd h)" for j
  proof -
    have "j < length (snd ?h1)" using that by (simp add: length_store_reading)
    with h'(5) have "snd h' ! j =
        (if Suc i \<le> j \<and> j < Suc i + length rs
         then (case snd ?h1 ! j of (r0, r1, r2) \<Rightarrow>
                 (case qs ! (j - Suc i) of (t, a, b, c) \<Rightarrow> (r0 @ [a], r1 @ [b], r2 @ [c])))
         else snd ?h1 ! j)"
      by blast
    then show ?thesis
      using that by (auto simp: snd_store_reading_nth nth_Cons' Suc_diff_Suc)
  qed
  show ?case
    using step h'(1,2,3) a b by (simp add: length_store_reading)
qed

lemma read_rows_too_many:
  assumes "list_all2 holds_reading rs qs" "length (fst h) < i + length rs"
    "length (snd h) = length (fst h)" "i \<le> length (fst h)"
  shows "read_rows conf i rs h = Inl IndexError"
  using assms
proof (induction rs qs arbitrary: i h rule: list_all2_induct)
  case Nil
  then show ?case by simp
next
  case (Cons r rs q qs)
  show ?case
  proof (cases "i < length (fst h)")
    case True
    then have i: "i < length (fst h)" "i < length (snd h)" using Cons.prems by simp_all
    have step: "read_rows conf i (r # rs) h = read_rows conf (Suc i) rs (store_reading conf i q h)"
      using Cons.hyps(1) i by (rule read_rows_Cons_ok)
    have "read_rows conf (Suc i) rs (store_reading conf i q h) = Inl IndexError"
      by (rule Cons.IH) (use Cons.prems True in \<open>simp_all add: length_store_reading\<close>)
    with step show ?thesis by simp
  next
    case False
    obtain t a b c where q: "q = (t, a, b, c)" by (cases q) auto
    from Cons.hyps(1) have "cell_int r ''CACHE_MAP'' = Inr t"
      by (simp add: holds_reading_def q)
    with False show ?thesis by (cases h) simp
  qed
qed

subsection \<open>Invariants of the measurements\<close>

lemma read_rows_invariant:
  assumes "read_rows conf i rs h = Inr h'" "J i h"
    and step: "\<And>i q h. J i h \<Longrightarrow> i < length (fst h) \<Longrightarrow> i < length (snd h) \<Longrightarrow>
                 J (Suc i) (store_reading conf i q h)"
  shows "J (i + length rs) h'"
  using assms(1,2)
proof (induction rs arbitrary: i h)
  case Nil
  then show ?case by (cases h) simp
next
  case (Cons r rest)
  from read_rows_Cons_Inr [OF Cons.prems(1)] obtain q where q:
    "i < length (fst h)" "i < length (snd h)"
    "read_rows conf (Suc i) rest (store_reading conf i q h) = Inr h'" by blast
  have "J (Suc i) (store_reading conf i q h)"
    using Cons.prems(2) q(1,2) by (rule step)
  from Cons.IH [OF q(3) this] show ?case by simp
qed

lemma fetch_results_Inr:
  "fetch_results conf dev k h = Inr h' \<Longrightarrow>
   \<not> trace_not_produced (measurement dev k) \<and>
   read_rows conf 0 (rows (measurement dev k)) h = Inr h'"
  by (simp add: fetch_results_def split: if_splits)

lemma measure_loop_Suc_Inr:
  assumes "measure_loop conf dev k (Suc n) h = (Inr h', calls)"
  shows "\<exists>h1 calls'. fetch_results conf dev k h = Inr h1 \<and>
           measure_loop conf dev (Suc k) n h1 = (Inr h', calls') \<and>
           calls = Measure (measurement_cpu conf) # calls'"
  using assms by (auto split: sum.splits prod.splits)

lemma measure_loop_invariant:
  assumes "measure_loop conf dev k n h = (Inr h', calls)" "I h"
    and step: "\<And>k h h1. I h \<Longrightarrow> fetch_results conf dev k h = Inr h1 \<Longrightarrow> I h1"
  shows "I h'"
  using assms(1,2)
proof (induction n arbitrary: k h calls)
  case 0
  then show ?case by simp
next
  case (Suc n)
  from measure_loop_Suc_Inr [OF Suc.prems(1)] obtain h1 calls' where h1:
    "fetch_results conf dev k h = Inr h1"
    "measure_loop conf dev (Suc k) n h1 = (Inr h', calls')" by blast
  have "I h1" using Suc.prems(2) h1(1) by (rule step)
  from Suc.IH [OF h1(2) this] show ?case .
qed

lemma stored_all_store_reading:
  assumes "stored_all P h" "i < length (fst h)" "P (mask_trace conf (fst q))"
  shows "stored_all P (store_reading conf i q h)"
proof -
  obtain tr pf where h: "h = (tr, pf)" by (cases h)
  obtain t a b c where q: "q = (t, a, b, c)" by (cases q)
  have old: "\<forall>v\<in>set (tr ! i). P v"
    using assms(1,2) nth_mem [of i tr] by (auto simp: stored_all_def h)
  have "\<forall>v\<in>set x. P v" if "x \<in> set (tr[i := tr ! i @ [mask_trace conf t]])" for x
  proof -
    from that have "x = tr ! i @ [mask_trace conf t] \<or> x \<in> set tr"
      using set_update_subset_insert [of tr i] by auto
    then show ?thesis
      using old assms(1,3) by (auto simp: stored_all_def h q)
  qed
  then show ?thesis
    by (simp add: stored_all_def store_reading_def h q)
qed

lemma fetch_results_stored:
  assumes "fetch_results conf dev k h = Inr h'" "stored_all P h" "\<And>t. P (mask_trace conf t)"
  shows "stored_all P h'"
proof -
  from fetch_results_Inr [OF assms(1)]
  have r: "read_rows conf 0 (rows (measurement dev k)) h = Inr h'" by simp
  show ?thesis
    by (rule read_rows_invariant [OF r, where J = "\<lambda>_. stored_all P"])
      (use assms(2,3) in \<open>auto intro: stored_all_store_reading\<close>)
qed

lemma measure_loop_stored:
  assumes "measure_loop conf dev k n h = (Inr h', calls)" "stored_all P h"
    "\<And>t. P (mask_trace conf t)"
  shows "stored_all P h'"
  by (rule measure_loop_invariant [OF assms(1), where I = "stored_all P"])
    (use assms(2,3) in \<open>auto intro: fetch_results_stored\<close>)

lemma stored_all_initial: "stored_all P (initial_histories inputs)"
  by (simp add: stored_all_def initial_histories_def)

lemma mask_constant: "(9223372036854775807::int) = mask 63"
  by (simp add: mask_eq_exp_minus_1)

lemma bit_mask_trace:
  "ignore_first_cache_line conf \<Longrightarrow> bit (mask_trace conf t) n \<longleftrightarrow> n < 63 \<and> bit t n"
  by (auto simp: mask_trace_def mask_constant bit_and_iff bit_mask_iff)

lemma mask_trace_mod:
  assumes "ignore_first_cache_line conf"
  shows "mask_trace conf t = t mod 2 ^ 63"
proof -
  have "mask_trace conf t = take_bit 63 t"
    using assms by (simp only: mask_trace_def mask_constant take_bit_eq_mask if_True)
  then show ?thesis by (simp only: take_bit_eq_mod)
qed

text \<open>
  C2, as amended. With \<^verbatim>\<open>ignore_first_cache_line\<close> set, the mask keeps bits 0 to 62 of a
  trace (bit 0 included) and clears bit 63 and every higher bit; after any number of
  measurements every stored trace value of every input lies between \<open>0\<close> and
  \<open>2 ^ 63 - 1\<close>, so its bit 63 is clear before counting and merging.
\<close>

theorem first_cache_line_mask:
  assumes "ignore_first_cache_line conf"
    and "measure_loop conf dev 0 n (initial_histories inputs) = (Inr h, calls)"
  shows "(\<forall>t m. bit (mask_trace conf t) m \<longleftrightarrow> m < 63 \<and> bit t m) \<and>
         (\<forall>x\<in>set (fst h). \<forall>v\<in>set x. 0 \<le> v \<and> v < 2 ^ 63 \<and> \<not> bit v 63)"
proof -
  have range: "0 \<le> mask_trace conf t \<and> mask_trace conf t < 2 ^ 63 \<and> \<not> bit (mask_trace conf t) 63"
    for t
    using assms(1) by (simp add: bit_mask_trace) (simp add: mask_trace_mod)
  have "stored_all (\<lambda>v. 0 \<le> v \<and> v < 2 ^ 63 \<and> \<not> bit v 63) h"
    using assms(2) stored_all_initial range by (rule measure_loop_stored)
  then show ?thesis
    using assms(1) by (simp add: stored_all_def bit_mask_trace)
qed

theorem first_cache_line_mask_witness:
  "ignore_first_cache_line demo_conf \<and>
   measure_loop demo_conf demo_device 0 1 (initial_histories [[1, 2]]) =
     (Inr ([[1]], [([3], [4], [5])]), [Measure 0]) \<and>
   bit (mask_trace demo_conf 1) 0 \<and> \<not> bit (mask_trace demo_conf (2 ^ 63)) 63"
proof -
  have a: "ignore_first_cache_line demo_conf" by (simp add: demo_conf_def)
  have b: "measure_loop demo_conf demo_device 0 1 (initial_histories [[1, 2]]) =
     (Inr ([[1]], [([3], [4], [5])]), [Measure 0])"
    by code_simp
  note t = first_cache_line_mask [OF a b]
  have "bit (mask_trace demo_conf 1) 0 \<longleftrightarrow> (0::nat) < 63 \<and> bit (1::int) 0"
    using t by blast
  then have c: "bit (mask_trace demo_conf 1) 0" by simp
  have "bit (mask_trace demo_conf (2 ^ 63)) 63 \<longleftrightarrow> (63::nat) < 63 \<and> bit (2 ^ 63 :: int) 63"
    using t by blast
  then have d: "\<not> bit (mask_trace demo_conf (2 ^ 63)) 63" by simp
  show ?thesis using a b c d by simp
qed

text \<open>
  C2, as stated, fails: with the flag set, a row whose trace has bit 0 set is stored
  with bit 0 still set.
\<close>

theorem lowest_bit_counterexample:
  "ignore_first_cache_line demo_conf \<and>
   holds_reading (hd (rows (measurement demo_device 0))) (9223372036854775809, 3, 4, 5) \<and>
   bit (9223372036854775809 :: int) 0 \<and>
   fetch_results demo_conf demo_device 0 (initial_histories [[1, 2]]) =
     Inr ([[1]], [([3], [4], [5])]) \<and>
   bit (1 :: int) 0"
  by code_simp

subsection \<open>The empty batch and the count of zero\<close>

lemma effective_measurements_default:
  "effective_measurements conf 0 = effective_measurements conf (num_measurements conf)"
  by (simp add: effective_measurements_def)

text \<open>
  C3, as amended. An empty list of inputs gives the empty result, with no call on the
  kernel module and no call of the hook. A count of \<open>0\<close> stands for the configured count:
  the call behaves as the call with \<^verbatim>\<open>CONF.num_measurements\<close>. For a list of inputs that
  is not empty the module is probed, and the inputs are loaded when it is there.
\<close>

theorem empty_batch_and_default_count:
  "trace_test_case conf dev coverage [] n = (Inr [], [], []) \<and>
   trace_test_case conf dev coverage inputs 0 =
     trace_test_case conf dev coverage inputs (num_measurements conf) \<and>
   (inputs \<noteq> [] \<longrightarrow>
      (\<exists>calls. fst (snd (trace_test_case conf dev coverage inputs n)) = IsFile # calls)) \<and>
   (inputs \<noteq> [] \<and> module_loaded dev \<longrightarrow>
      (\<exists>calls. fst (snd (trace_test_case conf dev coverage inputs n)) = load_calls inputs @ calls))"
proof (intro conjI impI)
  show "trace_test_case conf dev coverage [] n = (Inr [], [], [])"
    by (simp add: trace_test_case_def logger_error_def)
  show "trace_test_case conf dev coverage inputs 0 =
     trace_test_case conf dev coverage inputs (num_measurements conf)"
    unfolding trace_test_case_def effective_measurements_default ..
  {
    assume "inputs \<noteq> [] \<and> module_loaded dev"
    then show "\<exists>calls. fst (snd (trace_test_case conf dev coverage inputs n)) =
                 load_calls inputs @ calls"
      by (auto simp: trace_test_case_def logger_error_def Let_def split: prod.splits sum.splits)
  } note loaded = this
  assume ne: "inputs \<noteq> []"
  show "\<exists>calls. fst (snd (trace_test_case conf dev coverage inputs n)) = IsFile # calls"
  proof (cases "module_loaded dev")
    case True
    with ne loaded obtain calls where
      "fst (snd (trace_test_case conf dev coverage inputs n)) = load_calls inputs @ calls"
      by blast
    then show ?thesis by (simp add: load_calls_def)
  next
    case False
    with ne show ?thesis by (simp add: trace_test_case_def logger_error_def)
  qed
qed

theorem empty_batch_and_default_count_witness:
  "[[1, 2 :: 8 word]] \<noteq> [] \<and> module_loaded demo_device \<and>
   trace_test_case demo_conf demo_device True [[1, 2]] 0 =
     trace_test_case demo_conf demo_device True [[1, 2]] 2 \<and>
   take 4 (fst (snd (trace_test_case demo_conf demo_device True [[1, 2]] 0))) =
     load_calls [[1, 2]]"
proof -
  have a: "[[1, 2 :: 8 word]] \<noteq> []" by simp
  have b: "module_loaded demo_device" by code_simp
  note t = empty_batch_and_default_count [of demo_conf demo_device True n "[[1, 2]]" for n]
  have "trace_test_case demo_conf demo_device True [[1, 2]] 0 =
     trace_test_case demo_conf demo_device True [[1, 2]] (num_measurements demo_conf)"
    using t by blast
  then have c: "trace_test_case demo_conf demo_device True [[1, 2]] 0 =
     trace_test_case demo_conf demo_device True [[1, 2]] 2"
    by (simp add: demo_conf_def)
  from t [of 0] a b obtain calls where
    "fst (snd (trace_test_case demo_conf demo_device True [[1, 2]] 0)) =
       load_calls [[1, 2]] @ calls"
    by blast
  then have d: "take 4 (fst (snd (trace_test_case demo_conf demo_device True [[1, 2]] 0))) =
     load_calls [[1, 2]]"
    by (simp add: load_calls_def)
  show ?thesis using a b c d by simp
qed

text \<open>
  C3, as stated, fails: with a count of \<open>0\<close> and one input the call measures twice and
  returns one trace.
\<close>

theorem zero_count_counterexample:
  "trace_test_case demo_conf demo_device True [[1, 2]] 0 =
     (Inr [1],
      [IsFile, WriteNInputs 1, WriteInputs [1, 2], ReadNInputs, Measure 0, Measure 0],
      [[[0, 0, 0]]])"
  by code_simp

subsection \<open>A single measurement\<close>

lemma comprehension_map:
  "(\<forall>x\<in>set xs. f x = Inr (g x)) \<Longrightarrow> comprehension f xs = Inr (map g xs)"
  by (induction xs) simp_all

lemma comprehension_Inr:
  "comprehension f xs = Inr ys \<Longrightarrow> list_all2 (\<lambda>x y. f x = Inr y) xs ys"
  by (induction xs arbitrary: ys) (auto split: sum.splits)

lemma first_readings_length: "first_readings r = Inr c \<Longrightarrow> length c = 3"
  by (cases r) (auto simp: first_readings_def split: sum.splits)

lemma measure_loop_one:
  "fetch_results conf dev k h = Inr h' \<Longrightarrow>
   measure_loop conf dev k (Suc 0) h = (Inr h', [Measure (measurement_cpu conf)])"
  by simp

lemma fetch_results_ok:
  assumes "\<not> trace_not_produced (measurement dev k)"
    and "list_all2 holds_reading (rows (measurement dev k)) qs"
    and "length (snd h) = length (fst h)" "length qs \<le> length (fst h)"
  shows "\<exists>h'. fetch_results conf dev k h = Inr h' \<and>
              length (fst h') = length (fst h) \<and> length (snd h') = length (snd h) \<and>
              (\<forall>j<length (fst h). fst h' ! j =
                 (if j < length qs then fst h ! j @ [mask_trace conf (fst (qs ! j))]
                  else fst h ! j)) \<and>
              (\<forall>j<length (snd h). snd h' ! j =
                 (if j < length qs
                  then (case snd h ! j of (r0, r1, r2) \<Rightarrow>
                          (case qs ! j of (t, a, b, c) \<Rightarrow> (r0 @ [a], r1 @ [b], r2 @ [c])))
                  else snd h ! j))"
proof -
  have len: "length (rows (measurement dev k)) = length qs"
    using assms(2) by (rule list_all2_lengthD)
  have f: "fetch_results conf dev k h = read_rows conf 0 (rows (measurement dev k)) h"
    using assms(1) by (simp add: fetch_results_def)
  have "0 + length (rows (measurement dev k)) \<le> length (fst h)"
    using assms(4) by (simp add: len)
  from read_rows_ok [OF assms(2) this assms(3), of conf]
  show ?thesis
    by (simp only: f len add_0 diff_zero le0 simp_thms)
qed

lemma first_round_histories:
  assumes "\<not> trace_not_produced (measurement dev 0)"
    and "list_all2 holds_reading (rows (measurement dev 0)) qs"
    and "length qs = length inputs"
  shows "fetch_results conf dev 0 (initial_histories inputs) =
           Inr (map (\<lambda>q. [mask_trace conf (fst q)]) qs,
                map (\<lambda>(t, a, b, c). ([a], [b], [c])) qs)"
proof -
  let ?h = "initial_histories inputs"
  have l: "length (fst ?h) = length inputs" "length (snd ?h) = length inputs"
    by (simp_all add: initial_histories_def)
  have "length (snd ?h) = length (fst ?h)" "length qs \<le> length (fst ?h)"
    using assms(3) l by simp_all
  from fetch_results_ok [OF assms(1,2) this, of conf] obtain h' where h':
    "fetch_results conf dev 0 ?h = Inr h'"
    "length (fst h') = length (fst ?h)" "length (snd h') = length (snd ?h)"
    "\<forall>j<length (fst ?h). fst h' ! j =
        (if j < length qs then fst ?h ! j @ [mask_trace conf (fst (qs ! j))] else fst ?h ! j)"
    "\<forall>j<length (snd ?h). snd h' ! j =
        (if j < length qs
         then (case snd ?h ! j of (r0, r1, r2) \<Rightarrow>
                 (case qs ! j of (t, a, b, c) \<Rightarrow> (r0 @ [a], r1 @ [b], r2 @ [c])))
         else snd ?h ! j)"
    by blast
  have a: "fst h' = map (\<lambda>q. [mask_trace conf (fst q)]) qs"
  proof (rule nth_equalityI)
    show "length (fst h') = length (map (\<lambda>q. [mask_trace conf (fst q)]) qs)"
      using h'(2) l assms(3) by simp
    fix j assume "j < length (fst h')"
    then have j: "j < length inputs" using h'(2) l by simp
    with h'(4) l have "fst h' ! j =
        (if j < length qs then fst ?h ! j @ [mask_trace conf (fst (qs ! j))] else fst ?h ! j)"
      by simp
    then show "fst h' ! j = map (\<lambda>q. [mask_trace conf (fst q)]) qs ! j"
      using j assms(3) by (simp add: initial_histories_def)
  qed
  have b: "snd h' = map (\<lambda>(t, a, b, c). ([a], [b], [c])) qs"
  proof (rule nth_equalityI)
    show "length (snd h') = length (map (\<lambda>(t, a, b, c). ([a], [b], [c])) qs)"
      using h'(3) l assms(3) by simp
    fix j assume "j < length (snd h')"
    then have j: "j < length inputs" using h'(3) l by simp
    with h'(5) l have "snd h' ! j =
        (if j < length qs
         then (case snd ?h ! j of (r0, r1, r2) \<Rightarrow>
                 (case qs ! j of (t, a, b, c) \<Rightarrow> (r0 @ [a], r1 @ [b], r2 @ [c])))
         else snd ?h ! j)"
      by simp
    then show "snd h' ! j = map (\<lambda>(t, a, b, c). ([a], [b], [c])) qs ! j"
      using j assms(3) by (simp add: initial_histories_def split: prod.splits)
  qed
  from h'(1) a b show ?thesis by (cases h') simp
qed

lemma single_measurement_first_round:
  "single_measurement coverage
     (map (\<lambda>q. [mask_trace conf (fst q)]) qs, map (\<lambda>(t, a, b, c). ([a], [b], [c])) qs) =
   (Inr (map (\<lambda>q. mask_trace conf (fst q)) qs),
    if coverage then [map (\<lambda>(t, a, b, c). [a, b, c]) qs] else [])"
proof -
  have t: "comprehension first (map (\<lambda>q. [mask_trace conf (fst q)]) qs) =
             Inr (map (\<lambda>q. mask_trace conf (fst q)) qs)"
    by (induction qs) (simp_all add: first_def)
  have r: "comprehension first_readings (map (\<lambda>(t, a, b, c). ([a], [b], [c])) qs) =
             Inr (map (\<lambda>(t, a, b, c). [a, b, c]) qs)"
    by (induction qs) (auto simp: first_readings_def first_def)
  show ?thesis
    by (simp add: single_measurement_def t r)
qed

text \<open>
  C5, as amended. With one measurement whose rows hold one reading per input, the call
  returns for each input the trace of its row as it was stored, that is after the mask
  of \<^verbatim>\<open>ignore_first_cache_line\<close> when that flag is set and as the device gave it
  otherwise, without any filtering; it measures once; and the hook, when there is one,
  receives the three counters of each row as the device gave them.
\<close>

theorem single_measurement_result:
  assumes "inputs \<noteq> []" "module_loaded dev" "n_inputs_readback dev \<noteq> ''0'' @ [CHR 0x0A]"
    and "effective_measurements conf n = 1"
    and "\<not> trace_not_produced (measurement dev 0)"
    and "list_all2 holds_reading (rows (measurement dev 0)) qs"
    and "length qs = length inputs"
  shows "trace_test_case conf dev coverage inputs n =
           (Inr (map (\<lambda>q. mask_trace conf (fst q)) qs),
            load_calls inputs @ [Measure (measurement_cpu conf)],
            if coverage then [map (\<lambda>(t, a, b, c). [a, b, c]) qs] else []) \<and>
         (\<not> ignore_first_cache_line conf \<longrightarrow>
            fst (trace_test_case conf dev coverage inputs n) = Inr (map fst qs))"
proof -
  have f: "fetch_results conf dev 0 (initial_histories inputs) =
           Inr (map (\<lambda>q. [mask_trace conf (fst q)]) qs,
                map (\<lambda>(t, a, b, c). ([a], [b], [c])) qs)"
    using assms(5,6,7) by (rule first_round_histories)
  have m: "measure_loop conf dev 0 (nat 1) (initial_histories inputs) =
           (Inr (map (\<lambda>q. [mask_trace conf (fst q)]) qs,
                 map (\<lambda>(t, a, b, c). ([a], [b], [c])) qs),
            [Measure (measurement_cpu conf)])"
    using measure_loop_one [OF f] by simp
  have main: "trace_test_case conf dev coverage inputs n =
           (Inr (map (\<lambda>q. mask_trace conf (fst q)) qs),
            load_calls inputs @ [Measure (measurement_cpu conf)],
            if coverage then [map (\<lambda>(t, a, b, c). [a, b, c]) qs] else [])"
    using assms(1,2,3,4) m
    by (simp add: trace_test_case_def logger_error_def single_measurement_first_round del: measure_loop.simps)
  have "\<not> ignore_first_cache_line conf \<Longrightarrow>
          map (\<lambda>q. mask_trace conf (fst q)) qs = map fst qs"
    by (simp add: mask_trace_def)
  with main show ?thesis by simp
qed

theorem single_measurement_result_witness:
  "[[1, 2 :: 8 word]] \<noteq> [] \<and> module_loaded demo_device \<and>
   n_inputs_readback demo_device \<noteq> ''0'' @ [CHR 0x0A] \<and>
   effective_measurements demo_conf 1 = 1 \<and>
   \<not> trace_not_produced (measurement demo_device 0) \<and>
   list_all2 holds_reading (rows (measurement demo_device 0)) [(9223372036854775809, 3, 4, 5)] \<and>
   trace_test_case demo_conf demo_device True [[1, 2]] 1 =
     (Inr [1], [IsFile, WriteNInputs 1, WriteInputs [1, 2], ReadNInputs, Measure 0], [[[3, 4, 5]]])"
proof -
  have a: "[[1, 2 :: 8 word]] \<noteq> []" by simp
  have b: "module_loaded demo_device" by code_simp
  have c: "n_inputs_readback demo_device \<noteq> ''0'' @ [CHR 0x0A]" by code_simp
  have d: "effective_measurements demo_conf 1 = 1" by code_simp
  have e: "\<not> trace_not_produced (measurement demo_device 0)" by code_simp
  have f: "list_all2 holds_reading (rows (measurement demo_device 0))
             [(9223372036854775809, 3, 4, 5)]" by code_simp
  have g: "length [(9223372036854775809 :: int, 3 :: int, 4 :: int, 5 :: int)] =
             length [[1, 2 :: 8 word]]" by simp
  from single_measurement_result [OF a b c d e f g, of True]
  have "trace_test_case demo_conf demo_device True [[1, 2]] 1 =
     (Inr [mask_trace demo_conf 9223372036854775809],
      load_calls [[1, 2]] @ [Measure (measurement_cpu demo_conf)], [[[3, 4, 5]]])"
    by simp
  moreover have "mask_trace demo_conf 9223372036854775809 = 1" by code_simp
  moreover have "load_calls [[1, 2]] @ [Measure (measurement_cpu demo_conf)] =
    [IsFile, WriteNInputs 1, WriteInputs [1, 2], ReadNInputs, Measure 0]" by code_simp
  ultimately show ?thesis using a b c d e f by simp
qed

text \<open>
  C5, as stated, fails: with the flag set, the trace returned for a single measurement
  differs from the trace in the row of the device.
\<close>

theorem raw_trace_counterexample:
  "ignore_first_cache_line demo_conf \<and>
   holds_reading (hd (rows (measurement demo_device 0))) (9223372036854775809, 3, 4, 5) \<and>
   fst (trace_test_case demo_conf demo_device True [[1, 2]] 1) = Inr [1] \<and>
   (1 :: int) \<noteq> 9223372036854775809"
  by code_simp

subsection \<open>A measurement without a trace\<close>

lemma measure_loop_add:
  "measure_loop conf dev k (n + m) h =
     (case measure_loop conf dev k n h of
        (Inl e, c) \<Rightarrow> (Inl e, c)
      | (Inr h1, c) \<Rightarrow>
          (case measure_loop conf dev (k + n) m h1 of (res, c') \<Rightarrow> (res, c @ c')))"
  by (induction n arbitrary: k h) (auto split: sum.splits prod.splits)

lemma measure_loop_prefix:
  assumes "measure_loop conf dev k (n + m) h = (Inr h', c)"
  shows "\<exists>h1 c1. measure_loop conf dev k n h = (Inr h1, c1)"
  using assms unfolding measure_loop_add by (auto split: sum.splits prod.splits)

lemma fetch_results_not_produced:
  "trace_not_produced (measurement dev k) \<Longrightarrow> fetch_results conf dev k h = Inl NoOutput"
  by (simp add: fetch_results_def)

lemma measure_loop_not_produced:
  assumes "trace_not_produced (measurement dev k)" "j \<le> k" "k < j + n"
  shows "\<exists>e c. measure_loop conf dev j n h = (Inl e, c)"
  using assms(2,3)
proof (induction n arbitrary: j h)
  case 0
  then show ?case by simp
next
  case (Suc n)
  show ?case
  proof (cases "fetch_results conf dev j h")
    case (Inl e)
    then show ?thesis by simp
  next
    case (Inr h1)
    then have "j \<noteq> k"
      using fetch_results_not_produced [OF assms(1), of conf h] by auto
    with Suc.prems have "Suc j \<le> k" "k < Suc j + n" by simp_all
    from Suc.IH [OF this, of h1] obtain e c where
      "measure_loop conf dev (Suc j) n h1 = (Inl e, c)" by blast
    with Inr show ?thesis by simp
  qed
qed

lemma measure_loop_reaches_not_produced:
  assumes "trace_not_produced (measurement dev k)"
    and "measure_loop conf dev 0 k h = (Inr h1, c)"
  shows "fst (measure_loop conf dev 0 (k + Suc m) h) = Inl NoOutput"
proof -
  have "fetch_results conf dev k h1 = Inl NoOutput"
    using assms(1) by (rule fetch_results_not_produced)
  then have "measure_loop conf dev (0 + k) (Suc m) h1 =
               (Inl NoOutput, [Measure (measurement_cpu conf)])"
    by simp
  then show ?thesis
    unfolding measure_loop_add [of conf dev 0 k "Suc m" h] assms(2) by simp
qed

lemma trace_test_case_Inl_hook:
  "measure_loop conf dev 0 (nat (effective_measurements conf n)) (initial_histories inputs) =
     (Inl e, c) \<Longrightarrow> inputs \<noteq> [] \<Longrightarrow>
   (\<exists>e'. fst (trace_test_case conf dev coverage inputs n) = Inl e') \<and>
   snd (snd (trace_test_case conf dev coverage inputs n)) = []"
  by (simp add: trace_test_case_def logger_error_def Let_def del: measure_loop.simps)

text \<open>
  C7. When one of the measurements of a call on a list of inputs that is not empty leaves
  a file without the column \<^verbatim>\<open>CACHE_MAP\<close>, the call ends with an error, returns no trace
  for any input and does not call the hook; when the call gets as far as that
  measurement (the module is there, the load was accepted, the measurements before went
  through), the error is \<open>NoOutput\<close>.
\<close>

theorem no_output_aborts:
  assumes "inputs \<noteq> []"
    and "k < nat (effective_measurements conf n)"
    and "trace_not_produced (measurement dev k)"
  shows "(\<exists>e. fst (trace_test_case conf dev coverage inputs n) = Inl e) \<and>
         snd (snd (trace_test_case conf dev coverage inputs n)) = [] \<and>
         (module_loaded dev \<and> n_inputs_readback dev \<noteq> ''0'' @ [CHR 0x0A] \<and>
          (\<exists>h c. measure_loop conf dev 0 k (initial_histories inputs) = (Inr h, c)) \<longrightarrow>
            fst (trace_test_case conf dev coverage inputs n) = Inl NoOutput)"
proof (intro conjI impI)
  let ?num = "nat (effective_measurements conf n)"
  from measure_loop_not_produced [OF assms(3), of 0 ?num conf "initial_histories inputs"] assms(2)
  obtain e c where
    l: "measure_loop conf dev 0 ?num (initial_histories inputs) = (Inl e, c)"
    by auto
  from trace_test_case_Inl_hook [OF l assms(1)]
  show "\<exists>e. fst (trace_test_case conf dev coverage inputs n) = Inl e"
    and "snd (snd (trace_test_case conf dev coverage inputs n)) = []"
    by simp_all
  assume r: "module_loaded dev \<and> n_inputs_readback dev \<noteq> ''0'' @ [CHR 0x0A] \<and>
          (\<exists>h c. measure_loop conf dev 0 k (initial_histories inputs) = (Inr h, c))"
  then obtain h1 c1 where
    h1: "measure_loop conf dev 0 k (initial_histories inputs) = (Inr h1, c1)" by blast
  obtain m where m: "?num = k + Suc m"
    using assms(2) less_imp_Suc_add by auto
  have "fst (measure_loop conf dev 0 ?num (initial_histories inputs)) = Inl NoOutput"
    unfolding m using assms(3) h1 by (rule measure_loop_reaches_not_produced)
  with l have "e = NoOutput" by simp
  with l r assms(1) show "fst (trace_test_case conf dev coverage inputs n) = Inl NoOutput"
    by (simp add: trace_test_case_def logger_error_def Let_def del: measure_loop.simps)
qed

theorem no_output_aborts_witness:
  "[[1, 2 :: 8 word]] \<noteq> [] \<and> (1 :: nat) < nat (effective_measurements demo_conf 0) \<and>
   trace_not_produced (measurement silent_device 1) \<and>
   module_loaded silent_device \<and> n_inputs_readback silent_device \<noteq> ''0'' @ [CHR 0x0A] \<and>
   measure_loop demo_conf silent_device 0 1 (initial_histories [[1, 2]]) =
     (Inr ([[1]], [([3], [4], [5])]), [Measure 0]) \<and>
   fst (trace_test_case demo_conf silent_device True [[1, 2]] 0) = Inl NoOutput \<and>
   snd (snd (trace_test_case demo_conf silent_device True [[1, 2]] 0)) = []"
proof -
  have a: "[[1, 2 :: 8 word]] \<noteq> []" by simp
  have b: "(1 :: nat) < nat (effective_measurements demo_conf 0)" by code_simp
  have c: "trace_not_produced (measurement silent_device 1)" by code_simp
  have d: "module_loaded silent_device" by code_simp
  have e: "n_inputs_readback silent_device \<noteq> ''0'' @ [CHR 0x0A]" by code_simp
  have f: "measure_loop demo_conf silent_device 0 1 (initial_histories [[1, 2]]) =
     (Inr ([[1]], [([3], [4], [5])]), [Measure 0])" by code_simp
  note t = no_output_aborts [OF a b c, of True]
  from t d e f have g: "fst (trace_test_case demo_conf silent_device True [[1, 2]] 0) = Inl NoOutput"
    by blast
  from t have h: "snd (snd (trace_test_case demo_conf silent_device True [[1, 2]] 0)) = []"
    by blast
  show ?thesis using a b c d e f g h by simp
qed

subsection \<open>One result per input\<close>

lemma fetch_results_length:
  assumes "fetch_results conf dev k h = Inr h'"
  shows "length (fst h') = length (fst h) \<and> length (snd h') = length (snd h)"
  using fetch_results_Inr [OF assms] by (auto dest: read_rows_length)

lemma measure_loop_length:
  assumes "measure_loop conf dev k n h = (Inr h', c)"
  shows "length (fst h') = length (fst h) \<and> length (snd h') = length (snd h)"
  by (rule measure_loop_invariant [OF assms,
        where I = "\<lambda>x. length (fst x) = length (fst h) \<and> length (snd x) = length (snd h)"])
    (auto dest: fetch_results_length)

lemma readings_within_mono: "readings_within m r \<Longrightarrow> m \<le> m' \<Longrightarrow> readings_within m' r"
  by (cases r) (simp add: readings_within_def)

lemma readings_within_store:
  "readings_within m r \<Longrightarrow>
   readings_within (Suc m)
     (case r of (r0, r1, r2) \<Rightarrow> (case q of (t, a, b, c) \<Rightarrow> (r0 @ [a], r1 @ [b], r2 @ [c])))"
  by (cases r; cases q) (simp add: readings_within_def)

lemma fetch_results_bounded:
  assumes "fetch_results conf dev k h = Inr h'" "bounded_histories m h"
  shows "bounded_histories (Suc m) h'"
proof -
  define J where "J = (\<lambda>i (x :: histories).
     (\<forall>j<length (fst x). length (fst x ! j) \<le> (if j < i then Suc m else m)) \<and>
     (\<forall>j<length (snd x). readings_within (if j < i then Suc m else m) (snd x ! j)))"
  from fetch_results_Inr [OF assms(1)]
  have r: "read_rows conf 0 (rows (measurement dev k)) h = Inr h'" by simp
  have start: "J 0 h"
    using assms(2) by (simp add: J_def bounded_histories_def)
  have step: "J (Suc i) (store_reading conf i q x)"
    if "J i x" "i < length (fst x)" "i < length (snd x)" for i q x
  proof -
    have a: "length (fst (store_reading conf i q x) ! j) \<le> (if j < Suc i then Suc m else m)"
      if j: "j < length (fst x)" for j
    proof -
      from \<open>J i x\<close> j have "length (fst x ! j) \<le> (if j < i then Suc m else m)"
        by (simp add: J_def)
      then show ?thesis
        using j by (auto simp: fst_store_reading_nth split: if_splits)
    qed
    have b: "readings_within (if j < Suc i then Suc m else m) (snd (store_reading conf i q x) ! j)"
      if j: "j < length (snd x)" for j
    proof -
      from \<open>J i x\<close> j have old: "readings_within (if j < i then Suc m else m) (snd x ! j)"
        by (simp add: J_def)
      show ?thesis
      proof (cases "j = i")
        case True
        with old have "readings_within m (snd x ! j)" by simp
        then show ?thesis
          using j True by (simp add: snd_store_reading_nth readings_within_store)
      next
        case False
        with old show ?thesis
          using j by (auto simp: snd_store_reading_nth less_Suc_eq)
      qed
    qed
    show ?thesis
      using a b by (simp add: J_def length_store_reading)
  qed
  from read_rows_invariant [of conf 0 _ h h' J, OF r start step]
  have fin: "J (0 + length (rows (measurement dev k))) h'" by blast
  have "length x \<le> Suc m" if "x \<in> set (fst h')" for x
  proof -
    from that obtain j where "j < length (fst h')" "x = fst h' ! j"
      by (auto simp: in_set_conv_nth)
    with fin show ?thesis by (auto simp: J_def split: if_splits)
  qed
  moreover have "readings_within (Suc m) x" if "x \<in> set (snd h')" for x
  proof -
    from that obtain j where "j < length (snd h')" "x = snd h' ! j"
      by (auto simp: in_set_conv_nth)
    with fin have "readings_within (if j < 0 + length (rows (measurement dev k)) then Suc m else m) x"
      by (simp add: J_def)
    then show ?thesis
      by (rule readings_within_mono) simp
  qed
  ultimately show ?thesis by (simp add: bounded_histories_def)
qed

lemma measure_loop_bounded:
  assumes "measure_loop conf dev k n h = (Inr h', c)" "bounded_histories m h"
  shows "bounded_histories (m + n) h'"
  using assms
proof (induction n arbitrary: k h c m)
  case 0
  then show ?case by simp
next
  case (Suc n)
  from measure_loop_Suc_Inr [OF Suc.prems(1)] obtain h1 c1 where h1:
    "fetch_results conf dev k h = Inr h1"
    "measure_loop conf dev (Suc k) n h1 = (Inr h', c1)" by blast
  have "bounded_histories (Suc m) h1"
    using h1(1) Suc.prems(2) by (rule fetch_results_bounded)
  from Suc.IH [OF h1(2) this] show ?case by simp
qed

lemma bounded_initial: "bounded_histories 0 (initial_histories inputs)"
  by (simp add: bounded_histories_def initial_histories_def readings_within_def)

lemma trace_test_case_Inr:
  assumes "inputs \<noteq> []" "trace_test_case conf dev coverage inputs n = (Inr res, calls, hooked)"
  shows "\<exists>h c. measure_loop conf dev 0 (nat (effective_measurements conf n))
                  (initial_histories inputs) = (Inr h, c) \<and>
               (if effective_measurements conf n = 1 then single_measurement coverage h
                else merged_measurements conf coverage h) = (Inr res, hooked) \<and>
               calls = load_calls inputs @ c"
  using assms
  by (auto simp: trace_test_case_def logger_error_def Let_def simp del: measure_loop.simps
        split: if_splits prod.splits sum.splits)

lemma single_measurement_Inr:
  assumes "single_measurement coverage h = (Inr res, hooked)"
  shows "list_all2 (\<lambda>x y. first x = Inr y) (fst h) res \<and>
         length hooked = (if coverage then 1 else 0) \<and>
         (\<forall>arg\<in>set hooked. length arg = length (snd h) \<and> (\<forall>c\<in>set arg. length c = 3))"
proof (cases h)
  case (Pair tr pf)
  show ?thesis
  proof (cases coverage)
    case True
    with assms obtain arg where
      arg: "comprehension first_readings pf = Inr arg" "comprehension first tr = Inr res"
        "hooked = [arg]"
      by (auto simp: single_measurement_def Pair split: sum.splits)
    from comprehension_Inr [OF arg(1)]
    have l: "list_all2 (\<lambda>x y. first_readings x = Inr y) pf arg" .
    then have "length arg = length pf" by (simp add: list_all2_lengthD)
    moreover have "length c = 3" if "c \<in> set arg" for c
    proof -
      from that obtain j where j: "j < length arg" "c = arg ! j"
        by (auto simp: in_set_conv_nth)
      with l have "first_readings (pf ! j) = Inr c"
        by (simp add: list_all2_conv_all_nth)
      then show ?thesis by (rule first_readings_length)
    qed
    ultimately show ?thesis
      using comprehension_Inr [OF arg(2)] True arg(3) by (simp add: Pair)
  next
    case False
    with assms have "comprehension first tr = Inr res" "hooked = []"
      by (auto simp: single_measurement_def Pair split: sum.splits)
    then show ?thesis
      using comprehension_Inr [of first tr res] False by (simp add: Pair)
  qed
qed

lemma length_filter_reading_lists: "length (filter_reading_lists mo r) = 3"
  by (cases r) (simp add: filter_reading_lists_def)

lemma merged_measurements_Inr:
  assumes "merged_measurements conf coverage h = (Inr res, hooked)"
  shows "res = map (merge_trace_list (max_outliers conf)) (fst h) \<and>
         hooked = (if coverage then [map (filter_reading_lists (max_outliers conf)) (snd h)]
                   else [])"
  using assms by (cases h) (auto simp: merged_measurements_def)

lemma single_measurement_hook:
  assumes "single_measurement coverage h = (Inr res, hooked)"
  shows "if coverage
         then \<exists>arg. hooked = [arg] \<and> list_all2 (\<lambda>r y. first_readings r = Inr y) (snd h) arg
         else hooked = []"
proof (cases h)
  case (Pair tr pf)
  show ?thesis
  proof (cases coverage)
    case True
    with assms obtain arg where
      "comprehension first_readings pf = Inr arg" "hooked = [arg]"
      by (auto simp: single_measurement_def Pair split: sum.splits)
    with comprehension_Inr [of first_readings pf arg] True show ?thesis
      by (simp add: Pair)
  next
    case False
    with assms show ?thesis
      by (auto simp: single_measurement_def Pair split: sum.splits)
  qed
qed

text \<open>
  C9, as amended. A call on a list of inputs that is not empty and that returns, returns
  one trace per input and nothing else: the counters are no part of the value returned.
  The hook, when there is one, is called once, with one triple per input; without a hook
  the counters go nowhere. After any number \<open>m\<close> of the measurements of the call there is
  one history of traces and one of readings per input, each with at most \<open>m\<close> entries.
  The result for an input comes from the history at the position of that input: after a
  single measurement its first entry, and for the hook the first entries of its three
  lists of readings; otherwise its merged trace, and for the hook its filtered readings.
\<close>

theorem one_result_per_input:
  assumes "inputs \<noteq> []"
    and "trace_test_case conf dev coverage inputs n = (Inr res, calls, hooked)"
  shows "length res = length inputs \<and>
         length hooked = (if coverage then 1 else 0) \<and>
         (\<forall>arg\<in>set hooked. length arg = length inputs \<and> (\<forall>c\<in>set arg. length c = 3)) \<and>
         (\<forall>m\<le>nat (effective_measurements conf n).
            \<exists>h c. measure_loop conf dev 0 m (initial_histories inputs) = (Inr h, c) \<and>
                  length (fst h) = length inputs \<and> length (snd h) = length inputs \<and>
                  bounded_histories m h) \<and>
         (\<exists>h c. measure_loop conf dev 0 (nat (effective_measurements conf n))
                   (initial_histories inputs) = (Inr h, c) \<and>
                (if effective_measurements conf n = 1
                 then list_all2 (\<lambda>x y. first x = Inr y) (fst h) res \<and>
                      (if coverage
                       then \<exists>arg. hooked = [arg] \<and>
                              list_all2 (\<lambda>r y. first_readings r = Inr y) (snd h) arg
                       else hooked = [])
                 else res = map (merge_trace_list (max_outliers conf)) (fst h) \<and>
                      hooked =
                        (if coverage
                         then [map (filter_reading_lists (max_outliers conf)) (snd h)]
                         else [])))"
proof -
  let ?num = "effective_measurements conf n"
  from trace_test_case_Inr [OF assms] obtain h c where
    loop: "measure_loop conf dev 0 (nat ?num) (initial_histories inputs) = (Inr h, c)" and
    fin: "(if ?num = 1 then single_measurement coverage h
           else merged_measurements conf coverage h) = (Inr res, hooked)"
    by blast
  have init: "length (fst (initial_histories inputs)) = length inputs"
    "length (snd (initial_histories inputs)) = length inputs"
    by (simp_all add: initial_histories_def)
  have len: "length (fst h) = length inputs" "length (snd h) = length inputs"
    using measure_loop_length [OF loop] init by simp_all
  have shape: "length res = length inputs \<and>
         length hooked = (if coverage then 1 else 0) \<and>
         (\<forall>arg\<in>set hooked. length arg = length inputs \<and> (\<forall>c\<in>set arg. length c = 3))"
  proof (cases "?num = 1")
    case True
    with fin have "single_measurement coverage h = (Inr res, hooked)" by simp
    from single_measurement_Inr [OF this] show ?thesis
      using len by (auto dest: list_all2_lengthD)
  next
    case False
    with fin have "merged_measurements conf coverage h = (Inr res, hooked)" by simp
    from merged_measurements_Inr [OF this] show ?thesis
      using len by (simp add: length_filter_reading_lists)
  qed
  have prefixes: "\<exists>h1 c1. measure_loop conf dev 0 m (initial_histories inputs) = (Inr h1, c1) \<and>
                  length (fst h1) = length inputs \<and> length (snd h1) = length inputs \<and>
                  bounded_histories m h1"
    if "m \<le> nat ?num" for m
  proof -
    from that have "nat ?num = m + (nat ?num - m)" by simp
    with loop have "measure_loop conf dev 0 (m + (nat ?num - m)) (initial_histories inputs) =
                      (Inr h, c)" by simp
    from measure_loop_prefix [OF this] obtain h1 c1 where
      p: "measure_loop conf dev 0 m (initial_histories inputs) = (Inr h1, c1)" by blast
    from measure_loop_bounded [OF p bounded_initial]
    have "bounded_histories m h1" by simp
    with p measure_loop_length [OF p] init show ?thesis by simp
  qed
  have last: "(if ?num = 1
                 then list_all2 (\<lambda>x y. first x = Inr y) (fst h) res \<and>
                      (if coverage
                       then \<exists>arg. hooked = [arg] \<and>
                              list_all2 (\<lambda>r y. first_readings r = Inr y) (snd h) arg
                       else hooked = [])
                 else res = map (merge_trace_list (max_outliers conf)) (fst h) \<and>
                      hooked =
                        (if coverage
                         then [map (filter_reading_lists (max_outliers conf)) (snd h)]
                         else []))"
  proof (cases "?num = 1")
    case True
    with fin have "single_measurement coverage h = (Inr res, hooked)" by simp
    from single_measurement_hook [OF this] single_measurement_Inr [OF this] True
    show ?thesis by simp
  next
    case False
    with fin have "merged_measurements conf coverage h = (Inr res, hooked)" by simp
    from merged_measurements_Inr [OF this] False show ?thesis by simp
  qed
  from shape prefixes loop last show ?thesis by blast
qed

theorem one_result_per_input_witness:
  "[[1, 2], [3 :: 8 word]] \<noteq> [] \<and>
   trace_test_case demo_conf short_device True [[1, 2], [3]] 0 =
     (Inr [1, 0],
      [IsFile, WriteNInputs 2, WriteInputs [1, 2, 3], ReadNInputs, Measure 0, Measure 0],
      [[[0, 0, 0], [0, 0, 0]]]) \<and>
   length [1, 0 :: int] = length [[1, 2], [3 :: 8 word]] \<and>
   measure_loop demo_conf short_device 0 1 (initial_histories [[1, 2], [3]]) =
     (Inr ([[1], []], [([3], [4], [5]), ([], [], [])]), [Measure 0]) \<and>
   bounded_histories 1 ([[1], []], [([3], [4], [5]), ([], [], [])])"
proof -
  have a: "[[1, 2], [3 :: 8 word]] \<noteq> []" by simp
  have b: "trace_test_case demo_conf short_device True [[1, 2], [3]] 0 =
     (Inr [1, 0],
      [IsFile, WriteNInputs 2, WriteInputs [1, 2, 3], ReadNInputs, Measure 0, Measure 0],
      [[[0, 0, 0], [0, 0, 0]]])" by code_simp
  have c: "measure_loop demo_conf short_device 0 1 (initial_histories [[1, 2], [3]]) =
     (Inr ([[1], []], [([3], [4], [5]), ([], [], [])]), [Measure 0])" by code_simp
  have d: "(1 :: nat) \<le> nat (effective_measurements demo_conf 0)" by code_simp
  note t = one_result_per_input [OF a b]
  from t have e: "length [1, 0 :: int] = length [[1, 2], [3 :: 8 word]]" by blast
  from t d obtain h k where
    "measure_loop demo_conf short_device 0 1 (initial_histories [[1, 2], [3]]) = (Inr h, k)"
    "bounded_histories 1 h" by blast
  with c have f: "bounded_histories 1 ([[1], []], [([3], [4], [5]), ([], [], [])])" by simp
  show ?thesis using a b c e f by simp
qed

text \<open>
  C9, as stated, fails: without a hook the call returns the traces alone and the filtered
  counters reach nobody; with a hook they are handed to it and not returned; and after a
  single measurement the hook receives the counters as the device gave them.
\<close>

theorem no_hook_counterexample:
  "trace_test_case demo_conf demo_device False [[1, 2]] 2 =
     (Inr [1],
      [IsFile, WriteNInputs 1, WriteInputs [1, 2], ReadNInputs, Measure 0, Measure 0],
      []) \<and>
   trace_test_case demo_conf demo_device True [[1, 2]] 2 =
     (Inr [1],
      [IsFile, WriteNInputs 1, WriteInputs [1, 2], ReadNInputs, Measure 0, Measure 0],
      [[[0, 0, 0]]]) \<and>
   trace_test_case demo_conf demo_device True [[1, 2]] 1 =
     (Inr [1],
      [IsFile, WriteNInputs 1, WriteInputs [1, 2], ReadNInputs, Measure 0],
      [[[3, 4, 5]]])"
  by code_simp

subsection \<open>Rows and inputs\<close>






subsection \<open>The merged trace of an input\<close>

lemma multi_round_outcome:
  assumes "inputs \<noteq> []"
    and "trace_test_case conf dev coverage inputs n = (Inr res, calls, hooked)"
    and "effective_measurements conf n \<noteq> 1"
    and "measure_loop conf dev 0 (nat (effective_measurements conf n))
           (initial_histories inputs) = (Inr h, c)"
  shows "res = map (merge_trace_list (max_outliers conf)) (fst h)"
    and "hooked = (if coverage then [map (filter_reading_lists (max_outliers conf)) (snd h)]
                   else [])"
    and "length (fst h) = length inputs" and "length (snd h) = length inputs"
proof -
  from trace_test_case_Inr [OF assms(1,2)] assms(3,4)
  have "merged_measurements conf coverage h = (Inr res, hooked)" by auto
  from merged_measurements_Inr [OF this]
  show "res = map (merge_trace_list (max_outliers conf)) (fst h)"
    and "hooked = (if coverage then [map (filter_reading_lists (max_outliers conf)) (snd h)]
                   else [])"
    by simp_all
  from measure_loop_length [OF assms(4)]
  show "length (fst h) = length inputs" and "length (snd h) = length inputs"
    by (simp_all add: initial_histories_def)
qed

text \<open>
  C1, as amended. Take a call with a count of measurements other than one that returns,
  a threshold \<^verbatim>\<open>max_outliers\<close> that is not negative, and one of the inputs with its history
  of traces. A bit is set in the trace returned for the input if and only if it is set in
  a value that occurs more often than the threshold in the history. A value is merged
  in exactly one iteration if it occurs more often than the threshold and in none
  otherwise, where an iteration merges its value (by bitwise OR) exactly when the count
  it has just incremented equals the threshold plus one. The trace returned is the
  outcome of that loop, and one more occurrence of a value that already occurs more
  often than the threshold leaves it as it is.
\<close>

theorem combined_trace_threshold:
  assumes "inputs \<noteq> []"
    and "trace_test_case conf dev coverage inputs n = (Inr res, calls, hooked)"
    and "effective_measurements conf n \<noteq> 1"
    and "measure_loop conf dev 0 (nat (effective_measurements conf n))
           (initial_histories inputs) = (Inr h, c)"
    and "i < length inputs"
    and "0 \<le> max_outliers conf"
  shows "(\<forall>m. bit (res ! i) m \<longleftrightarrow>
              (\<exists>v\<in>set (fst h ! i).
                  max_outliers conf < int (count_list (fst h ! i) v) \<and> bit v m)) \<and>
         (\<forall>v. length [j \<leftarrow> [0..<length (fst h ! i)].
                  fst h ! i ! j = v \<and>
                  occurrences_at (max_outliers conf) (fst h ! i) j = max_outliers conf + 1] =
              (if max_outliers conf < int (count_list (fst h ! i) v) then 1 else 0)) \<and>
         (\<forall>j<length (fst h ! i).
              snd (merge_loop (max_outliers conf) (take (Suc j) (fst h ! i))) =
              (if occurrences_at (max_outliers conf) (fst h ! i) j = max_outliers conf + 1
               then snd (merge_loop (max_outliers conf) (take j (fst h ! i))) OR fst h ! i ! j
               else snd (merge_loop (max_outliers conf) (take j (fst h ! i))))) \<and>
         res ! i = snd (merge_loop (max_outliers conf) (fst h ! i)) \<and>
         (\<forall>v. max_outliers conf < int (count_list (fst h ! i) v) \<longrightarrow>
              merge_trace_list (max_outliers conf) (fst h ! i @ [v]) = res ! i)"
proof -
  let ?mo = "max_outliers conf" and ?xs = "fst h ! i"
  have r: "res ! i = merge_trace_list ?mo ?xs"
    using multi_round_outcome(1,3) [OF assms(1-4)] assms(5) by simp
  have a: "\<forall>m. bit (res ! i) m \<longleftrightarrow>
              (\<exists>v\<in>set ?xs. ?mo < int (count_list ?xs v) \<and> bit v m)"
    using assms(6) by (simp add: r merge_trace_list_bits)
  have b: "\<forall>v. length [j \<leftarrow> [0..<length ?xs].
                  ?xs ! j = v \<and> occurrences_at ?mo ?xs j = ?mo + 1] =
              (if ?mo < int (count_list ?xs v) then 1 else 0)"
    using assms(6) by (simp add: merge_positions)
  have c: "\<forall>j<length ?xs.
              snd (merge_loop ?mo (take (Suc j) ?xs)) =
              (if occurrences_at ?mo ?xs j = ?mo + 1
               then snd (merge_loop ?mo (take j ?xs)) OR ?xs ! j
               else snd (merge_loop ?mo (take j ?xs)))"
    using merge_loop_take_Suc by blast
  have d: "res ! i = snd (merge_loop ?mo ?xs)"
    by (simp add: r merge_trace_list_def)
  have e: "\<forall>v. ?mo < int (count_list ?xs v) \<longrightarrow>
              merge_trace_list ?mo (?xs @ [v]) = res ! i"
    by (simp add: r merge_repeat)
  from a b c d e show ?thesis by blast
qed

lemma varied_run:
  "measure_loop demo_conf varied_device 0 5 (initial_histories [[1, 2]]) =
     (Inr ([[1, 1, 2, 2, 2]], [([7, 7, 5, 5, 5], [4, 4, 4, 4, 4], [5, 5, 5, 5, 5])]),
      [Measure 0, Measure 0, Measure 0, Measure 0, Measure 0])"
  by code_simp

lemma varied_call:
  "trace_test_case demo_conf varied_device True [[1, 2]] 5 =
     (Inr [3],
      [IsFile, WriteNInputs 1, WriteInputs [1, 2], ReadNInputs,
       Measure 0, Measure 0, Measure 0, Measure 0, Measure 0],
      [[[5, 0, 0]]])"
  by code_simp

theorem combined_trace_threshold_witness:
  "[[1, 2 :: 8 word]] \<noteq> [] \<and> effective_measurements demo_conf 5 \<noteq> 1 \<and>
   (0 :: nat) < length [[1, 2 :: 8 word]] \<and> 0 \<le> max_outliers demo_conf \<and>
   trace_test_case demo_conf varied_device True [[1, 2]] 5 =
     (Inr [3],
      [IsFile, WriteNInputs 1, WriteInputs [1, 2], ReadNInputs,
       Measure 0, Measure 0, Measure 0, Measure 0, Measure 0],
      [[[5, 0, 0]]]) \<and>
   measure_loop demo_conf varied_device 0 5 (initial_histories [[1, 2]]) =
     (Inr ([[1, 1, 2, 2, 2]], [([7, 7, 5, 5, 5], [4, 4, 4, 4, 4], [5, 5, 5, 5, 5])]),
      [Measure 0, Measure 0, Measure 0, Measure 0, Measure 0]) \<and>
   length [j \<leftarrow> [0..<length [1, 1, 2, 2, 2 :: int]]. ([1, 1, 2, 2, 2] :: int list) ! j = 2 \<and>
             occurrences_at 1 [1, 1, 2, 2, 2] j = 1 + 1] = 1 \<and>
   snd (merge_loop 1 [1, 1, 2, 2, 2]) = 3 \<and>
   merge_trace_list 1 [1, 1, 2, 2, 2, 2] = 3"
proof -
  have a: "[[1, 2 :: 8 word]] \<noteq> []" by simp
  have b: "effective_measurements demo_conf 5 \<noteq> 1" by code_simp
  have c: "(0 :: nat) < length [[1, 2 :: 8 word]]" by simp
  have d: "0 \<le> max_outliers demo_conf" by code_simp
  have e: "nat (effective_measurements demo_conf 5) = 5" by code_simp
  have mo: "max_outliers demo_conf = 1" by code_simp
  note run = varied_run [folded e]
  note t = combined_trace_threshold [OF a varied_call b run c d, unfolded mo fst_conv nth_Cons_0]
  from t have "\<forall>v. length [j \<leftarrow> [0..<length [1, 1, 2, 2, 2 :: int]].
             ([1, 1, 2, 2, 2] :: int list) ! j = v \<and>
             occurrences_at 1 [1, 1, 2, 2, 2] j = 1 + 1] =
           (if 1 < int (count_list [1, 1, 2, 2, 2 :: int] v) then 1 else 0)"
    by (rule conjunct1 [OF conjunct2])
  then have "length [j \<leftarrow> [0..<length [1, 1, 2, 2, 2 :: int]].
             ([1, 1, 2, 2, 2] :: int list) ! j = 2 \<and>
             occurrences_at 1 [1, 1, 2, 2, 2] j = 1 + 1] =
           (if 1 < int (count_list [1, 1, 2, 2, 2 :: int] 2) then 1 else 0)"
    by (rule spec)
  moreover have "(if 1 < int (count_list [1, 1, 2, 2, 2 :: int] 2) then 1 else 0) = (1 :: nat)"
    by simp
  ultimately have f: "length [j \<leftarrow> [0..<length [1, 1, 2, 2, 2 :: int]].
             ([1, 1, 2, 2, 2] :: int list) ! j = 2 \<and>
             occurrences_at 1 [1, 1, 2, 2, 2] j = 1 + 1] = 1"
    by (rule trans)
  from t have "(3 :: int) = snd (merge_loop 1 [1, 1, 2, 2, 2])"
    by (rule conjunct1 [OF conjunct2 [OF conjunct2 [OF conjunct2]]])
  then have g: "snd (merge_loop 1 [1, 1, 2, 2, 2]) = 3" by simp
  from t have "\<forall>v. 1 < int (count_list [1, 1, 2, 2, 2 :: int] v) \<longrightarrow>
      merge_trace_list 1 ([1, 1, 2, 2, 2] @ [v]) = 3"
    by (rule conjunct2 [OF conjunct2 [OF conjunct2 [OF conjunct2]]])
  then have "1 < int (count_list [1, 1, 2, 2, 2 :: int] 2) \<longrightarrow>
      merge_trace_list 1 ([1, 1, 2, 2, 2] @ [2]) = 3"
    by (rule spec)
  then have i: "merge_trace_list 1 [1, 1, 2, 2, 2, 2] = 3" by simp
  show ?thesis by (intro conjI a b c d varied_call varied_run f g i)
qed

text \<open>
  C1, as stated, fails: with the threshold \<open>-1\<close> the value \<open>1\<close> occurs twice, more often
  than the threshold, yet it is not merged: the trace returned is \<open>0\<close>.
\<close>

theorem negative_threshold_counterexample:
  "effective_measurements negative_conf 2 = 2 \<and>
   measure_loop negative_conf demo_device 0 2 (initial_histories [[1, 2]]) =
     (Inr ([[1, 1]], [([3, 3], [4, 4], [5, 5])]), [Measure 0, Measure 0]) \<and>
   max_outliers negative_conf < int (count_list [1, 1] (1 :: int)) \<and>
   bit (1 :: int) 0 \<and>
   fst (trace_test_case negative_conf demo_device True [[1, 2]] 2) = Inr [0] \<and>
   \<not> bit (0 :: int) 0"
  by code_simp

lemma permuted_run:
  "measure_loop demo_conf permuted_device 0 5 (initial_histories [[1, 2]]) =
     (Inr ([[2, 1, 2, 1, 2]], [([5, 7, 5, 7, 5], [4, 4, 4, 4, 4], [5, 5, 5, 5, 5])]),
      [Measure 0, Measure 0, Measure 0, Measure 0, Measure 0])"
  by code_simp

lemma permuted_call:
  "trace_test_case demo_conf permuted_device False [[1, 2]] 5 =
     (Inr [3],
      [IsFile, WriteNInputs 1, WriteInputs [1, 2], ReadNInputs,
       Measure 0, Measure 0, Measure 0, Measure 0, Measure 0],
      [])"
  by code_simp

lemma merge_trace_list_negative: "mo < 0 \<Longrightarrow> merge_trace_list mo xs = 0"
  by (rule bit_eqI) (simp add: merge_trace_list_bits)

text \<open>
  C10, as amended. Take two calls with counts of measurements other than one that
  return, with the same threshold, and an input of each. When the histories of the two
  inputs hold the same values the same number of times, in whatever order, the traces
  returned for them are equal. The trace returned for an input is the bitwise OR of the
  distinct values that occur more often than the threshold in its history when the
  threshold is not negative, and \<open>0\<close> when it is negative.
\<close>

theorem combined_trace_multiset:
  assumes "inputs \<noteq> []"
    and "trace_test_case conf dev coverage inputs n = (Inr res, calls, hooked)"
    and "effective_measurements conf n \<noteq> 1"
    and "measure_loop conf dev 0 (nat (effective_measurements conf n))
           (initial_histories inputs) = (Inr h, c)"
    and "i < length inputs"
    and "inputs' \<noteq> []"
    and "trace_test_case conf' dev' coverage' inputs' n' = (Inr res', calls', hooked')"
    and "effective_measurements conf' n' \<noteq> 1"
    and "measure_loop conf' dev' 0 (nat (effective_measurements conf' n'))
           (initial_histories inputs') = (Inr h', c')"
    and "i' < length inputs'"
    and "max_outliers conf' = max_outliers conf"
  shows "(mset (fst h ! i) = mset (fst h' ! i') \<longrightarrow> res ! i = res' ! i') \<and>
         res ! i =
           (if 0 \<le> max_outliers conf
            then or_list [v \<leftarrow> remdups (fst h ! i).
                            max_outliers conf < int (count_list (fst h ! i) v)]
            else 0)"
proof (intro conjI impI)
  let ?mo = "max_outliers conf"
  have r: "res ! i = merge_trace_list ?mo (fst h ! i)"
    using multi_round_outcome(1,3) [OF assms(1-4)] assms(5) by simp
  have r': "res' ! i' = merge_trace_list ?mo (fst h' ! i')"
    using multi_round_outcome(1,3) [OF assms(6-9)] assms(10,11) by simp
  show "res ! i =
           (if 0 \<le> ?mo
            then or_list [v \<leftarrow> remdups (fst h ! i). ?mo < int (count_list (fst h ! i) v)]
            else 0)"
    unfolding r by (simp add: merge_trace_list_or_list merge_trace_list_negative)
  assume eq: "mset (fst h ! i) = mset (fst h' ! i')"
  then have cnt: "count_list (fst h ! i) v = count_list (fst h' ! i') v" for v
    by (metis count_mset)
  have s: "set (fst h ! i) = set (fst h' ! i')" using eq by (rule mset_eq_setD)
  have "merge_trace_list ?mo (fst h ! i) = merge_trace_list ?mo (fst h' ! i')"
    by (rule bit_eqI) (simp add: merge_trace_list_bits cnt s)
  then show "res ! i = res' ! i'" by (simp add: r r')
qed

theorem combined_trace_multiset_witness:
  "[[1, 2 :: 8 word]] \<noteq> [] \<and> effective_measurements demo_conf 5 \<noteq> 1 \<and>
   (0 :: nat) < length [[1, 2 :: 8 word]] \<and>
   trace_test_case demo_conf varied_device True [[1, 2]] 5 =
     (Inr [3],
      [IsFile, WriteNInputs 1, WriteInputs [1, 2], ReadNInputs,
       Measure 0, Measure 0, Measure 0, Measure 0, Measure 0],
      [[[5, 0, 0]]]) \<and>
   trace_test_case demo_conf permuted_device False [[1, 2]] 5 =
     (Inr [3],
      [IsFile, WriteNInputs 1, WriteInputs [1, 2], ReadNInputs,
       Measure 0, Measure 0, Measure 0, Measure 0, Measure 0],
      []) \<and>
   mset [1, 1, 2, 2, 2 :: int] = mset [2, 1, 2, 1, 2] \<and>
   (3 :: int) = or_list [1, 2]"
proof -
  have a: "[[1, 2 :: 8 word]] \<noteq> []" by simp
  have b: "effective_measurements demo_conf 5 \<noteq> 1" by code_simp
  have c: "(0 :: nat) < length [[1, 2 :: 8 word]]" by simp
  have e: "nat (effective_measurements demo_conf 5) = 5" by code_simp
  have mo: "max_outliers demo_conf = 1" by code_simp
  have p: "mset [1, 1, 2, 2, 2 :: int] = mset [2, 1, 2, 1, 2]" by simp
  note t = combined_trace_multiset [OF a varied_call b varied_run [folded e] c
      a permuted_call b permuted_run [folded e] c refl,
      unfolded mo fst_conv nth_Cons_0]
  from t have "(3 :: int) =
      (if (0 :: int) \<le> 1
       then or_list [v \<leftarrow> remdups [1, 1, 2, 2, 2]. 1 < int (count_list [1, 1, 2, 2, 2] v)]
       else 0)"
    by (rule conjunct2)
  then have f: "(3 :: int) = or_list [1, 2]" by simp
  show ?thesis by (intro conjI a b c varied_call permuted_call p f)
qed

text \<open>
  C10, as stated, fails: with the threshold \<open>-1\<close> the value \<open>1\<close> occurs three times, the OR
  of the values above the threshold is \<open>1\<close>, and the trace returned is \<open>0\<close>.
\<close>

theorem negative_threshold_or_counterexample:
  "effective_measurements negative_conf 3 = 3 \<and>
   measure_loop negative_conf demo_device 0 3 (initial_histories [[1, 2]]) =
     (Inr ([[1, 1, 1]], [([3, 3, 3], [4, 4, 4], [5, 5, 5])]),
      [Measure 0, Measure 0, Measure 0]) \<and>
   or_list [v \<leftarrow> remdups [1, 1, 1].
              max_outliers negative_conf < int (count_list [1, 1, 1] v)] = 1 \<and>
   fst (trace_test_case negative_conf demo_device True [[1, 2]] 3) = Inr [0] \<and>
   (0 :: int) \<noteq> 1"
  by code_simp

subsection \<open>The filtered readings of an input\<close>

lemma filter_loop_negative: "mo < 0 \<Longrightarrow> snd (filter_loop mo xs) = 0"
proof -
  assume "mo < 0"
  then have "z \<le> snd (filter_loop mo xs) \<longleftrightarrow> z \<le> 0" for z
    by (simp add: filter_loop_le)
  then show ?thesis by (meson order_antisym order_refl)
qed

text \<open>
  C6. Take a call with a count of measurements other than one that returns, with a hook,
  and one of the inputs with its three lists of readings. The hook is called once, with
  one triple per input, and the triple of the input is the outcome of the filter over
  its first list followed by \<open>0\<close> and \<open>0\<close>, whatever its second and third list hold. An
  iteration of the filter replaces the filtered value by the maximum of it and the
  reading exactly when the count it has just incremented equals twice the threshold
  plus one, the counts being the numbers of occurrences. The outcome is the maximum of
  \<open>0\<close> and of the readings that occur more often than twice the threshold when the
  threshold is not negative, and \<open>0\<close> when it is negative.
\<close>

theorem counter_filter:
  assumes "inputs \<noteq> []"
    and "trace_test_case conf dev coverage inputs n = (Inr res, calls, hooked)"
    and "effective_measurements conf n \<noteq> 1"
    and "measure_loop conf dev 0 (nat (effective_measurements conf n))
           (initial_histories inputs) = (Inr h, c)"
    and "i < length inputs"
    and "coverage"
    and "snd h ! i = (r0, r1, r2)"
  shows "(\<exists>arg. hooked = [arg] \<and> length arg = length inputs \<and>
                arg ! i = [snd (filter_loop (max_outliers conf) r0), 0, 0]) \<and>
         (\<forall>j<length r0. snd (filter_loop (max_outliers conf) (take (Suc j) r0)) =
            (if counter_get (fst (filter_loop (max_outliers conf) (take (Suc j) r0))) (r0 ! j) =
                  max_outliers conf * 2 + 1
             then max (snd (filter_loop (max_outliers conf) (take j r0))) (r0 ! j)
             else snd (filter_loop (max_outliers conf) (take j r0)))) \<and>
         (\<forall>v. counter_get (fst (filter_loop (max_outliers conf) r0)) v = int (count_list r0 v)) \<and>
         snd (filter_loop (max_outliers conf) r0) =
           (if 0 \<le> max_outliers conf
            then max_list [v \<leftarrow> remdups r0. max_outliers conf * 2 < int (count_list r0 v)]
            else 0)"
proof -
  let ?mo = "max_outliers conf"
  let ?arg = "map (filter_reading_lists ?mo) (snd h)"
  have hk: "hooked = [?arg]"
    using multi_round_outcome(2) [OF assms(1-4)] assms(6) by simp
  have len: "length (snd h) = length inputs"
    using multi_round_outcome(4) [OF assms(1-4)] .
  have "?arg ! i = filter_reading_lists ?mo (snd h ! i)"
    using assms(5) len by simp
  then have ai: "?arg ! i = [snd (filter_loop ?mo r0), 0, 0]"
    by (simp add: assms(7) filter_reading_lists_def)
  have a: "\<exists>arg. hooked = [arg] \<and> length arg = length inputs \<and>
                arg ! i = [snd (filter_loop ?mo r0), 0, 0]"
    using hk len ai by simp
  have b: "\<forall>j<length r0. snd (filter_loop ?mo (take (Suc j) r0)) =
            (if counter_get (fst (filter_loop ?mo (take (Suc j) r0))) (r0 ! j) = ?mo * 2 + 1
             then max (snd (filter_loop ?mo (take j r0))) (r0 ! j)
             else snd (filter_loop ?mo (take j r0)))"
    using filter_loop_take_Suc by blast
  have d: "\<forall>v. counter_get (fst (filter_loop ?mo r0)) v = int (count_list r0 v)"
    by (simp add: filter_loop_counter)
  have e: "snd (filter_loop ?mo r0) =
           (if 0 \<le> ?mo then max_list [v \<leftarrow> remdups r0. ?mo * 2 < int (count_list r0 v)]
            else 0)"
    by (simp add: filter_loop_max_list filter_loop_negative)
  from a b d e show ?thesis by blast
qed

theorem counter_filter_witness:
  "[[1, 2 :: 8 word]] \<noteq> [] \<and> effective_measurements demo_conf 5 \<noteq> 1 \<and>
   (0 :: nat) < length [[1, 2 :: 8 word]] \<and>
   trace_test_case demo_conf varied_device True [[1, 2]] 5 =
     (Inr [3],
      [IsFile, WriteNInputs 1, WriteInputs [1, 2], ReadNInputs,
       Measure 0, Measure 0, Measure 0, Measure 0, Measure 0],
      [[[5, 0, 0]]]) \<and>
   measure_loop demo_conf varied_device 0 5 (initial_histories [[1, 2]]) =
     (Inr ([[1, 1, 2, 2, 2]], [([7, 7, 5, 5, 5], [4, 4, 4, 4, 4], [5, 5, 5, 5, 5])]),
      [Measure 0, Measure 0, Measure 0, Measure 0, Measure 0]) \<and>
   [[5, 0, 0]] ! 0 = [snd (filter_loop 1 [7, 7, 5, 5, 5]), 0, 0] \<and>
   snd (filter_loop 1 [7, 7, 5, 5, 5]) = max_list [5]"
proof -
  have a: "[[1, 2 :: 8 word]] \<noteq> []" by simp
  have b: "effective_measurements demo_conf 5 \<noteq> 1" by code_simp
  have c: "(0 :: nat) < length [[1, 2 :: 8 word]]" by simp
  have e: "nat (effective_measurements demo_conf 5) = 5" by code_simp
  have mo: "max_outliers demo_conf = 1" by code_simp
  have s: "snd ([[1, 1, 2, 2, 2 :: int]],
                [([7, 7, 5, 5, 5 :: int], [4, 4, 4, 4, 4 :: int], [5, 5, 5, 5, 5 :: int])]) ! 0 =
           ([7, 7, 5, 5, 5], [4, 4, 4, 4, 4], [5, 5, 5, 5, 5])"
    by simp
  note t = counter_filter [OF a varied_call b varied_run [folded e] c TrueI s, unfolded mo]
  from t obtain arg where arg: "[[[5, 0, 0 :: int]]] = [arg]"
    "arg ! 0 = [snd (filter_loop 1 [7, 7, 5, 5, 5]), 0, 0]"
    by blast
  from arg(1) have "arg = [[5, 0, 0]]" by simp
  with arg(2) have f: "[[5, 0, 0]] ! 0 = [snd (filter_loop 1 [7, 7, 5, 5, 5]), 0, 0]"
    by simp
  from t have "snd (filter_loop 1 [7, 7, 5, 5, 5]) =
      (if (0 :: int) \<le> 1
       then max_list [v \<leftarrow> remdups [7, 7, 5, 5, 5]. 1 * 2 < int (count_list [7, 7, 5, 5, 5] v)]
       else 0)"
    by blast
  then have g: "snd (filter_loop 1 [7, 7, 5, 5, 5]) = max_list [5]" by simp
  show ?thesis by (intro conjI a b c varied_call varied_run f g)
qed

end
